theory Spec2Isabelle
  imports Main "HOL-Library.Word"
begin

section \<open>Machine integers and bytes\<close>

type_synonym u16 = "16 word"
type_synonym u32 = "32 word"

section \<open>The CpG index (cpg_index.hpp)\<close>

text \<open>
  \<^verbatim>\<open>struct cpg_index\<close>: the chromosome names in file order, their sizes, the sorted CpG
  positions of each chromosome, the prefix offsets into the flat CpG sequence, the
  name-to-id map (ids are \<^verbatim>\<open>std::int32_t\<close>) and the total number of CpGs.
\<close>

record cpg_index =
  chrom_order :: "string list"
  chrom_size :: "u32 list"
  positions :: "u32 list list"
  chrom_offset :: "u32 list"
  chrom_index :: "string \<rightharpoonup> int"
  n_cpgs_total :: u32

text \<open>
  The invariants the data model states for a CpG index: the per-chromosome vectors
  have one entry per chromosome, positions are strictly ascending and below the
  chromosome size, every prefix offset is the number of CpGs on the chromosomes
  before it, and the total is the number of all CpGs (so every count fits 32 bits).
\<close>

definition cpg_index_wf :: "cpg_index \<Rightarrow> bool" where
  "cpg_index_wf idx \<longleftrightarrow>
     length (chrom_size idx) = length (positions idx) \<and>
     length (chrom_offset idx) = length (positions idx) \<and>
     (\<forall>i \<in> {0..<length (positions idx)}.
        sorted_wrt (<) (positions idx ! i) \<and>
        (\<forall>p \<in> set (positions idx ! i). p < chrom_size idx ! i) \<and>
        unat (chrom_offset idx ! i) = sum_list (map length (take i (positions idx)))) \<and>
     unat (n_cpgs_total idx) = sum_list (map length (positions idx))"

text \<open>
  What a model reports where the C++ has no defined result: a read through an iterator
  or index that is out of range, a failed \<^verbatim>\<open>assert\<close>, and a loop that has not
  returned within the given number of iterations.
\<close>

datatype fault = OutOfRange | AssertionFailed | OutOfFuel

text \<open>
  Modelled from the spec: \<^verbatim>\<open>cpg_index.cpp\<close> is not among the sources, only the
  declarations of \<^verbatim>\<open>get_offset_within_chrom\<close>, \<^verbatim>\<open>get_offsets_within_chrom\<close> and
  \<^verbatim>\<open>get_offsets\<close> in \<^verbatim>\<open>cpg_index.hpp\<close>. The header says the offset within the
  chromosome comes from \<^verbatim>\<open>std::lower_bound\<close>, the spec calls it a binary search over
  \<^verbatim>\<open>positions[ch_id]\<close>. \<open>lower_bound\<close> is the halving loop of \<^verbatim>\<open>std::lower_bound\<close>
  on the range of \<open>count\<close> elements that starts at index \<open>first\<close>.
\<close>

function lower_bound :: "u32 list \<Rightarrow> nat \<Rightarrow> nat \<Rightarrow> u32 \<Rightarrow> nat" where
  "lower_bound xs first count v =
     (if 0 < count then
        (let step = count div 2; it = first + step
         in if xs ! it < v then lower_bound xs (it + 1) (count - (step + 1)) v
            else lower_bound xs first step v)
      else first)"
  by pat_completeness auto
termination
  by (relation "measure (\<lambda>(xs, first, count, v). count)") auto

declare lower_bound.simps [simp del]

text \<open>
  Modelled from the spec: the body of \<^verbatim>\<open>cpg_index::get_offset_within_chrom\<close> is
  missing. The count of CpGs of chromosome \<open>ch_id\<close> strictly below \<open>pos\<close>, found by the
  binary search, returned as \<^verbatim>\<open>std::uint32_t\<close>. A chromosome id outside the index
  would index \<^verbatim>\<open>positions\<close> out of range.
\<close>

definition get_offset_within_chrom :: "cpg_index \<Rightarrow> int \<Rightarrow> u32 \<Rightarrow> fault + u32" where
  "get_offset_within_chrom idx ch_id pos =
     (if 0 \<le> ch_id \<and> nat ch_id < length (positions idx) then
        (let ps = positions idx ! nat ch_id
         in Inr (of_nat (lower_bound ps 0 (length ps) pos)))
      else Inl OutOfRange)"

text \<open>
  Modelled from the spec: the body of \<^verbatim>\<open>cpg_index::get_offsets_within_chrom\<close> is
  missing. Each \<open>(start, stop)\<close> pair becomes the pair of the two counts.
\<close>

fun get_offsets_within_chrom ::
  "cpg_index \<Rightarrow> int \<Rightarrow> (u32 \<times> u32) list \<Rightarrow> fault + (u32 \<times> u32) list" where
  "get_offsets_within_chrom idx ch_id [] = Inr []"
| "get_offsets_within_chrom idx ch_id ((start, stop) # pos) =
     (case get_offset_within_chrom idx ch_id start of
        Inl e \<Rightarrow> Inl e
      | Inr lo \<Rightarrow>
          (case get_offset_within_chrom idx ch_id stop of
             Inl e \<Rightarrow> Inl e
           | Inr hi \<Rightarrow>
               (case get_offsets_within_chrom idx ch_id pos of
                  Inl e \<Rightarrow> Inl e
                | Inr rest \<Rightarrow> Inr ((lo, hi) # rest))))"

text \<open>
  Modelled from the spec: the body of \<^verbatim>\<open>cpg_index::get_offsets\<close> (chromosome id and
  position pairs) is missing. The global offsets are the offsets within the chromosome
  plus \<^verbatim>\<open>chrom_offset[ch_id]\<close>, in 32-bit arithmetic.
\<close>

definition get_offsets ::
  "cpg_index \<Rightarrow> int \<Rightarrow> (u32 \<times> u32) list \<Rightarrow> fault + (u32 \<times> u32) list" where
  "get_offsets idx ch_id pos =
     (if 0 \<le> ch_id \<and> nat ch_id < length (chrom_offset idx) then
        (case get_offsets_within_chrom idx ch_id pos of
           Inl e \<Rightarrow> Inl e
         | Inr within \<Rightarrow>
             (let offset = chrom_offset idx ! nat ch_id
              in Inr (map (\<lambda>(lo, hi). (offset + lo, offset + hi)) within)))
      else Inl OutOfRange)"

text \<open>The index of scenario S1: \<^verbatim>\<open>chr1 = ACGTCGCG\<close>, \<^verbatim>\<open>chr2 = CG\<close>.\<close>

definition s1_index :: cpg_index where
  "s1_index = \<lparr> chrom_order = [''chr1'', ''chr2''], chrom_size = [8, 2],
     positions = [[2, 4, 6], [0]], chrom_offset = [0, 3],
     chrom_index = [''chr1'' \<mapsto> 0, ''chr2'' \<mapsto> 1], n_cpgs_total = 4 \<rparr>"

section \<open>The methylome and the bins command (bins.cpp)\<close>

text \<open>
  Modelled from the spec: \<^verbatim>\<open>methylome.hpp\<close> is not among the sources. A methylome is the
  flat vector \<^verbatim>\<open>cpgs\<close> of pairs \<open>(m_count, u_count)\<close>, 16 bits each, one pair per CpG
  of the index.
\<close>

record methylome =
  cpgs :: "(u16 \<times> u16) list"

type_synonym counts = "u32 \<times> u32 \<times> u32"

text \<open>
  \<^verbatim>\<open>bin_counts\<close>. An iterator is modelled by the part of its vector from the iterator on:
  \<open>posn_itr\<close> is the range \<^verbatim>\<open>[posn_itr, posn_end)\<close>, \<open>cpg_itr\<close> the records from
  \<^verbatim>\<open>cpg_itr\<close> on. The loop runs while a position is left and it is below \<open>bin_end\<close>;
  each step adds the record under \<^verbatim>\<open>cpg_itr\<close> to the 32-bit accumulators (the 16-bit
  counts are promoted to \<^verbatim>\<open>int\<close> for \<^verbatim>\<open>first + second > 0\<close>) and advances both
  iterators, which the caller sees advanced. Reading a record where none is left is
  out of range.
\<close>

fun bin_counts_loop ::
  "u32 list \<Rightarrow> u32 \<Rightarrow> (u16 \<times> u16) list \<Rightarrow> u32 \<Rightarrow> u32 \<Rightarrow> u32 \<Rightarrow>
   fault + (counts \<times> u32 list \<times> (u16 \<times> u16) list)" where
  "bin_counts_loop [] bin_end cpg_itr n_meth n_unmeth n_covered =
     Inr ((n_meth, n_unmeth, n_covered), [], cpg_itr)"
| "bin_counts_loop (p # posn_itr) bin_end cpg_itr n_meth n_unmeth n_covered =
     (if p < bin_end then
        (case cpg_itr of
           [] \<Rightarrow> Inl OutOfRange
         | (m, u) # cpg_itr' \<Rightarrow>
             bin_counts_loop posn_itr bin_end cpg_itr'
               (n_meth + ucast m) (n_unmeth + ucast u)
               (n_covered + (if 0 < uint m + uint u then 1 else 0)))
      else Inr ((n_meth, n_unmeth, n_covered), p # posn_itr, cpg_itr))"

definition bin_counts ::
  "u32 list \<Rightarrow> u32 \<Rightarrow> (u16 \<times> u16) list \<Rightarrow>
   fault + (counts \<times> u32 list \<times> (u16 \<times> u16) list)" where
  "bin_counts posn_itr bin_end cpg_itr = bin_counts_loop posn_itr bin_end cpg_itr 0 0 0"

text \<open>
  The inner loop of \<^verbatim>\<open>bins_main\<close>,
  \<^verbatim>\<open>for (uint32_t i = 0; i < chrom_size; i += bin_size)\<close>, from the value \<open>i\<close> on. Both
  \<^verbatim>\<open>i + bin_size\<close> and \<^verbatim>\<open>i += bin_size\<close> are 32-bit additions. The loop has no bound of
  its own, so the model counts iterations down from \<open>fuel\<close>. The results are returned in
  the order in which \<^verbatim>\<open>results.emplace_back\<close> appends them.
\<close>

fun chrom_bins ::
  "nat \<Rightarrow> u32 \<Rightarrow> u32 \<Rightarrow> u32 \<Rightarrow> u32 list \<Rightarrow> (u16 \<times> u16) list \<Rightarrow> fault + counts list" where
  "chrom_bins 0 bin_size csize i posn_itr cpg_itr = Inl OutOfFuel"
| "chrom_bins (Suc fuel) bin_size csize i posn_itr cpg_itr =
     (if i < csize then
        (let bin_end = min (i + bin_size) csize
         in case bin_counts posn_itr bin_end cpg_itr of
              Inl e \<Rightarrow> Inl e
            | Inr (r, posn_itr', cpg_itr') \<Rightarrow>
                (case chrom_bins fuel bin_size csize (i + bin_size) posn_itr' cpg_itr' of
                   Inl e \<Rightarrow> Inl e
                 | Inr rs \<Rightarrow> Inr (r # rs)))
      else Inr [])"

text \<open>
  The outer loop of \<^verbatim>\<open>bins_main\<close> over
  \<^verbatim>\<open>zip(index.positions, index.chrom_size, index.chrom_offset)\<close>: for each chromosome the
  position iterator starts at its first position and the record iterator at
  \<^verbatim>\<open>cbegin(meth.cpgs) + offset\<close>.
\<close>

fun bins_loop ::
  "nat \<Rightarrow> u32 \<Rightarrow> (u16 \<times> u16) list \<Rightarrow> (u32 list \<times> u32 \<times> u32) list \<Rightarrow> fault + counts list" where
  "bins_loop fuel bin_size meth_cpgs [] = Inr []"
| "bins_loop fuel bin_size meth_cpgs ((posns, csize, offset) # zipped) =
     (case chrom_bins fuel bin_size csize 0 posns (drop (unat offset) meth_cpgs) of
        Inl e \<Rightarrow> Inl e
      | Inr rs \<Rightarrow>
          (case bins_loop fuel bin_size meth_cpgs zipped of
             Inl e \<Rightarrow> Inl e
           | Inr rest \<Rightarrow> Inr (rs @ rest)))"

text \<open>
  \<^verbatim>\<open>bins_main\<close> after the index and the methylome are read: the vector \<^verbatim>\<open>results\<close>
  that is then printed, one line per bin. \<open>fuel\<close> bounds the bins of one chromosome.
\<close>

definition bins_main :: "nat \<Rightarrow> cpg_index \<Rightarrow> methylome \<Rightarrow> u32 \<Rightarrow> fault + counts list" where
  "bins_main fuel index meth bin_size =
     bins_loop fuel bin_size (cpgs meth)
       (zip (positions index) (zip (chrom_size index) (chrom_offset index)))"

section \<open>Writing bins (genomic_interval_output.hpp)\<close>

text \<open>
  Modelled from the spec: \<^verbatim>\<open>cpg_index_meta.hpp\<close> is not among the sources;
  \<^verbatim>\<open>write_bins\<close> reads the chromosome names and sizes of the metadata.
\<close>

record cpg_index_meta =
  meta_chrom_order :: "string list"
  meta_chrom_size :: "u32 list"

text \<open>
  One line of \<^verbatim>\<open>write_bins\<close>: chromosome name, bin start, bin end and the result of the
  bin. The model keeps the fields of the line; their decimal text in the line buffer is
  not modelled.
\<close>

type_synonym 'r bin_row = "string \<times> u32 \<times> u32 \<times> 'r"

text \<open>
  The inner loop of \<^verbatim>\<open>write_bins\<close>,
  \<^verbatim>\<open>for (bin_beg = 0; bin_beg < chrom_size; bin_beg += bin_size)\<close>, from \<open>bin_beg\<close> on. Each
  bin reads the result under \<^verbatim>\<open>results_itr\<close> and advances it.
\<close>

fun write_bins_chrom ::
  "nat \<Rightarrow> u32 \<Rightarrow> string \<Rightarrow> u32 \<Rightarrow> u32 \<Rightarrow> 'r list \<Rightarrow> fault + ('r bin_row list \<times> 'r list)" where
  "write_bins_chrom 0 bin_size chrom_name csize bin_beg results_itr = Inl OutOfFuel"
| "write_bins_chrom (Suc fuel) bin_size chrom_name csize bin_beg results_itr =
     (if bin_beg < csize then
        (let bin_end = min (bin_beg + bin_size) csize
         in case results_itr of
              [] \<Rightarrow> Inl OutOfRange
            | r # results_itr' \<Rightarrow>
                (case write_bins_chrom fuel bin_size chrom_name csize
                        (bin_beg + bin_size) results_itr' of
                   Inl e \<Rightarrow> Inl e
                 | Inr (rows, rest) \<Rightarrow> Inr ((chrom_name, bin_beg, bin_end, r) # rows, rest)))
      else Inr ([], results_itr))"

fun write_bins_loop ::
  "nat \<Rightarrow> u32 \<Rightarrow> (u32 \<times> string) list \<Rightarrow> 'r list \<Rightarrow> fault + ('r bin_row list \<times> 'r list)" where
  "write_bins_loop fuel bin_size [] results_itr = Inr ([], results_itr)"
| "write_bins_loop fuel bin_size ((csize, chrom_name) # zipped) results_itr =
     (case write_bins_chrom fuel bin_size chrom_name csize 0 results_itr of
        Inl e \<Rightarrow> Inl e
      | Inr (rows, results_itr') \<Rightarrow>
          (case write_bins_loop fuel bin_size zipped results_itr' of
             Inl e \<Rightarrow> Inl e
           | Inr (rows', rest) \<Rightarrow> Inr (rows @ rows', rest)))"

text \<open>
  \<^verbatim>\<open>write_bins\<close>: the lines written for
  \<^verbatim>\<open>zip(cim.chrom_size, cim.chrom_order)\<close>, then
  \<^verbatim>\<open>assert(results_itr == std::cend(results))\<close>.
\<close>

definition write_bins ::
  "nat \<Rightarrow> cpg_index_meta \<Rightarrow> u32 \<Rightarrow> 'r list \<Rightarrow> fault + 'r bin_row list" where
  "write_bins fuel cim bin_size results =
     (case write_bins_loop fuel bin_size
             (zip (meta_chrom_size cim) (meta_chrom_order cim)) results of
        Inl e \<Rightarrow> Inl e
      | Inr (rows, rest) \<Rightarrow> if rest = [] then Inr rows else Inl AssertionFailed)"


definition s1_meta :: cpg_index_meta where
  "s1_meta = \<lparr> meta_chrom_order = [''chr1'', ''chr2''], meta_chrom_size = [8, 2] \<rparr>"




text \<open>The number of bins of size \<open>B\<close> over a chromosome of size \<open>S\<close>: \<open>S / B\<close> rounded up.\<close>

definition n_bins :: "nat \<Rightarrow> nat \<Rightarrow> nat" where
  "n_bins S B = (S + B - 1) div B"






text \<open>
  An index with one chromosome of \<open>3 * 2 ^ 30\<close> bases and no CpG, its metadata and the
  empty methylome aligned to it.
\<close>

definition long_index :: cpg_index where
  "long_index = \<lparr> chrom_order = [''chr1''], chrom_size = [3221225472],
     positions = [[]], chrom_offset = [0],
     chrom_index = [''chr1'' \<mapsto> 0], n_cpgs_total = 0 \<rparr>"

definition long_meta :: cpg_index_meta where
  "long_meta = \<lparr> meta_chrom_order = [''chr1''], meta_chrom_size = [3221225472] \<rparr>"

definition empty_methylome :: methylome where
  "empty_methylome = \<lparr> cpgs = [] \<rparr>"


section \<open>The request header (request.hpp, request.cpp)\<close>

text \<open>
  The values of \<^verbatim>\<open>status_code::value\<close> that \<^verbatim>\<open>request.cpp\<close> returns
  (\<^verbatim>\<open>status_code.hpp\<close> is not among the sources).
\<close>

datatype status_code =
  ok | malformed_accession | malformed_methylome_size | malformed_n_intervals

definition buf_size :: nat where
  "buf_size = 256"

text \<open>
  \<^verbatim>\<open>struct request\<close>. \<open>buf\<close> is the \<^verbatim>\<open>std::array<char, buf_size>\<close>: a list of
  \<open>buf_size\<close> bytes.
\<close>

record request =
  buf :: "char list"
  accession :: string
  methylome_size :: u32
  n_intervals :: u32
  offsets :: "(u32 \<times> u32) list"

definition delim :: char where
  "delim = CHR 0x09"

definition term_char :: char where
  "term_char = CHR 0x0A"

definition nul :: char where
  "nul = CHR 0x00"

subsection \<open>Decimal text of the standard library\<close>

text \<open>
  \<^verbatim>\<open>std::format("{}", n)\<close> for an unsigned integer: its decimal digits, most significant
  first, without leading zeros.
\<close>

definition digit_char :: "nat \<Rightarrow> char" where
  "digit_char d = char_of (48 + d)"

fun dec_digits :: "nat \<Rightarrow> string" where
  "dec_digits n =
     (if n < 10 then [digit_char n] else dec_digits (n div 10) @ [digit_char (n mod 10)])"

declare dec_digits.simps [simp del]

definition is_digit :: "char \<Rightarrow> bool" where
  "is_digit c \<longleftrightarrow> 48 \<le> (of_char c :: nat) \<and> (of_char c :: nat) \<le> 57"

definition digit_val :: "char \<Rightarrow> nat" where
  "digit_val c = of_char c - 48"

definition digits_value :: "string \<Rightarrow> nat" where
  "digits_value ds = foldl (\<lambda>acc c. 10 * acc + digit_val c) 0 ds"

text \<open>
  \<^verbatim>\<open>std::from_chars(first, last, value)\<close> for \<^verbatim>\<open>std::uint32_t\<close> in base 10, on the bytes
  of \<open>b\<close> from index \<open>first\<close> up to index \<open>lst\<close>: the longest run of digits is read. Without
  a digit the result is \<^verbatim>\<open>invalid_argument\<close> and \<^verbatim>\<open>ptr = first\<close>; a number that does
  not fit 32 bits is \<^verbatim>\<open>result_out_of_range\<close> with \<^verbatim>\<open>ptr\<close> after the digits; in both
  cases \<open>value\<close> is left as it was. The result is \<^verbatim>\<open>(ptr, ec)\<close> and the new \<open>value\<close>.
\<close>

datatype errc = errc_none | invalid_argument | result_out_of_range

definition from_chars :: "char list \<Rightarrow> nat \<Rightarrow> nat \<Rightarrow> u32 \<Rightarrow> nat \<times> errc \<times> u32" where
  "from_chars b first lst v =
     (let ds = takeWhile is_digit (take (lst - first) (drop first b))
      in if ds = [] then (first, invalid_argument, v)
         else if 2 ^ 32 \<le> digits_value ds then (first + length ds, result_out_of_range, v)
         else (first + length ds, errc_none, of_nat (digits_value ds)))"

text \<open>
  \<^verbatim>\<open>std::ranges::fill_n(begin(buf), n, c)\<close> and \<^verbatim>\<open>std::ranges::copy(s, begin(buf))\<close> on
  the array: both write from the first byte on, and writing past the last byte of the
  array is out of range.
\<close>

definition fill_n :: "char list \<Rightarrow> nat \<Rightarrow> char \<Rightarrow> fault + char list" where
  "fill_n b n c = (if n \<le> length b then Inr (replicate n c @ drop n b) else Inl OutOfRange)"

definition copy_to :: "char list \<Rightarrow> char list \<Rightarrow> fault + char list" where
  "copy_to s b = (if length s \<le> length b then Inr (s @ drop (length s) b) else Inl OutOfRange)"

text \<open>
  \<^verbatim>\<open>std::ranges::find(cbegin(buf), data_end, c)\<close>: the index of the first \<open>c\<close> among the
  first \<open>data_end\<close> bytes, or \<open>data_end\<close>.
\<close>

definition find_char :: "char list \<Rightarrow> nat \<Rightarrow> char \<Rightarrow> nat" where
  "find_char b data_end c =
     (let n = length (takeWhile (\<lambda>x. x \<noteq> c) (take data_end b))
      in if n < length (take data_end b) then n else data_end)"

subsection \<open>Encoding and decoding\<close>

text \<open>
  The text \<^verbatim>\<open>format("{}\t{}\t{}\n", accession, methylome_size, n_intervals)\<close>.
\<close>

definition request_text :: "request \<Rightarrow> string" where
  "request_text r =
     accession r @ [delim] @ dec_digits (unat (methylome_size r)) @ [delim] @
     dec_digits (unat (n_intervals r)) @ [term_char]"

text \<open>
  \<^verbatim>\<open>request::to_buffer\<close>: the buffer is zeroed, then the text is copied to its start.
  Nothing checks that the text fits the buffer.
\<close>

definition to_buffer :: "request \<Rightarrow> fault + (status_code \<times> request)" where
  "to_buffer r =
     (let s = request_text r
      in case fill_n (buf r) buf_size nul of
           Inl e \<Rightarrow> Inl e
         | Inr zeroed \<Rightarrow>
             (case copy_to s zeroed of
                Inl e \<Rightarrow> Inl e
              | Inr written \<Rightarrow> Inr (ok, r\<lparr>buf := written\<rparr>)))"

text \<open>
  \<^verbatim>\<open>request::from_buffer\<close>. The three fields are reset first. \<open>cursor\<close> is an index into
  \<open>buf\<close>; \<^verbatim>\<open>*cursor++\<close> reads the byte at \<open>cursor\<close> and then advances. After each
  \<^verbatim>\<open>from_chars\<close> the cursor may be \<open>data_end\<close>, and the source reads \<^verbatim>\<open>*cursor\<close>
  without a check: one byte past the array, which the model reports as out of range.
\<close>

definition from_buffer :: "request \<Rightarrow> fault + (status_code \<times> request)" where
  "from_buffer r0 =
     (let r1 = r0\<lparr>accession := [], methylome_size := 0, n_intervals := 0\<rparr>;
          data_end = buf_size;
          cursor = find_char (buf r1) data_end delim
      in if cursor = data_end then Inr (malformed_accession, r1)
         else
           (let r2 = r1\<lparr>accession := take cursor (buf r1)\<rparr>
            in if buf r2 ! cursor \<noteq> delim then Inr (malformed_methylome_size, r2)
               else
                 (case from_chars (buf r2) (cursor + 1) data_end (methylome_size r2) of
                    (ptr, ec, v) \<Rightarrow>
                      (let r3 = r2\<lparr>methylome_size := v\<rparr>
                       in if ec \<noteq> errc_none then Inr (malformed_methylome_size, r3)
                          else if data_end \<le> ptr then Inl OutOfRange
                          else if buf r3 ! ptr \<noteq> delim then Inr (malformed_n_intervals, r3)
                          else
                            (case from_chars (buf r3) (ptr + 1) data_end (n_intervals r3) of
                               (ptr', ec', v') \<Rightarrow>
                                 (let r4 = r3\<lparr>n_intervals := v'\<rparr>
                                  in if ec' \<noteq> errc_none then Inr (malformed_n_intervals, r4)
                                     else if data_end \<le> ptr' then Inl OutOfRange
                                     else if buf r4 ! ptr' \<noteq> term_char
                                       then Inr (malformed_n_intervals, r4)
                                     else Inr (ok, r4)))))))"

text \<open>A request and a buffer to try the two functions on.\<close>

definition zero_buf :: "char list" where
  "zero_buf = replicate 256 nul"

definition request0 :: request where
  "request0 = \<lparr> buf = zero_buf, accession = ''SRX012345'', methylome_size = 29401795,
     n_intervals = 3, offsets = [] \<rparr>"


subsection \<open>The binary layout of the spec\<close>

text \<open>
  The request header as the spec words it, in network byte order: \<open>version\<close> (u16),
  \<open>command\<close> (u16), \<open>accession_len\<close> (u16), \<open>reserved\<close> (u16), the \<open>accession_len\<close> bytes of the
  accession, \<open>methylome_size\<close> (u32), \<open>n_intervals\<close> (u32), then padding. A request has no
  version and no command, and the spec fixes neither the reserved bytes nor the
  padding, so \<open>spec_header_layout\<close> leaves them free and asks only for the fields that
  a request determines.
\<close>

definition be16 :: "nat \<Rightarrow> char list" where
  "be16 n = [char_of (n div 256), char_of n]"

definition be32 :: "u32 \<Rightarrow> char list" where
  "be32 w = [char_of (unat w div 16777216), char_of (unat w div 65536),
             char_of (unat w div 256), char_of (unat w)]"

definition spec_header_layout :: "request \<Rightarrow> char list \<Rightarrow> bool" where
  "spec_header_layout r bytes \<longleftrightarrow>
     (let n = length (accession r)
      in 16 + n \<le> length bytes \<and>
         take 2 (drop 4 bytes) = be16 n \<and>
         take n (drop 8 bytes) = accession r \<and>
         take 4 (drop (8 + n) bytes) = be32 (methylome_size r) \<and>
         take 4 (drop (12 + n) bytes) = be32 (n_intervals r))"

text \<open>A small request and the bytes \<^verbatim>\<open>to_buffer\<close> writes for it.\<close>

definition request1 :: request where
  "request1 = \<lparr> buf = zero_buf, accession = ''a'', methylome_size = 1,
     n_intervals = 2, offsets = [] \<rparr>"

definition encoded1 :: "char list" where
  "encoded1 = CHR ''a'' # delim # CHR ''1'' # delim # CHR ''2'' # term_char # replicate 250 nul"


section \<open>The connection (connection.cpp)\<close>

text \<open>
  \<^verbatim>\<open>connection.cpp\<close> drives one socket through asynchronous operations; each operation
  is started with a completion handler that runs when the operation has finished, with
  success or with an error code. The model runs the member functions and the completion
  handlers as functions on the connection's data. A function returns the new data, the
  operation it leaves pending (none: no handler holds the connection any more, it is
  destroyed and its destructor closes the socket) and the socket calls it made.

  The code the connection calls but that is not among the sources is a parameter of the
  model: the record \<open>collaborators\<close>. Request header, response header and response are
  type parameters.
\<close>

datatype io_result = Transferred "char list" | IoError

datatype pending =
  ReadRequest | ReadOffsets | WriteHeader | WriteCounts | WriteError

datatype socket_call =
  AsyncRead nat | AsyncReadSome nat nat | AsyncWrite "char list" | ShutdownBoth

record ('q, 'p, 's) connection =
  req_buf :: "char list"
  req_hdr :: 'q
  req :: request
  resp_hdr :: 'p
  resp_buf :: "char list"
  resp :: 's
  offset_byte :: nat
  offset_remaining :: nat

text \<open>
  \<^item> \<open>request_buf_size\<close>: the constant of that name;
  \<^item> \<open>parse_request_header b h\<close>: \<^verbatim>\<open>from_chars(first, last, req_hdr)\<close> on the request
    buffer: where parsing stopped, whether it failed, and the header left in \<open>req_hdr\<close>;
  \<^item> \<open>handle_header\<close>: \<^verbatim>\<open>request_handler::handle_header\<close>, which fills the response header;
  \<^item> \<open>is_error\<close>: \<^verbatim>\<open>response_header::error()\<close>;
  \<^item> \<open>parse_request b ptr r\<close>: \<^verbatim>\<open>from_chars(req_hdr_ptr, last, req)\<close>: whether it failed and
    the request left in \<open>req\<close>;
  \<^item> \<open>bad_request\<close>: \<^verbatim>\<open>response_header::bad_request()\<close>;
  \<^item> \<open>store_offsets r at bytes\<close>: the request after the received bytes are stored at byte
    \<open>at\<close> of \<^verbatim>\<open>req.offsets\<close>;
  \<^item> \<open>handle_get_counts\<close>: \<^verbatim>\<open>request_handler::handle_get_counts\<close>, which fills response
    header and response;
  \<^item> \<open>compose_response_header b h\<close>: \<^verbatim>\<open>to_chars(first, last, resp_hdr)\<close> on the response
    buffer: whether it failed and the buffer it leaves;
  \<^item> \<open>parse_response_header b h\<close>: \<^verbatim>\<open>from_chars(first, last, resp_hdr)\<close> on the response
    buffer: whether it failed and the header left in \<open>resp_hdr\<close>;
  \<^item> \<open>counts_bytes\<close>: the bytes of \<^verbatim>\<open>resp.counts\<close>.
\<close>

record ('q, 'p, 's) collaborators =
  request_buf_size :: nat
  parse_request_header :: "char list \<Rightarrow> 'q \<Rightarrow> nat \<times> bool \<times> 'q"
  handle_header :: "'q \<Rightarrow> 'p \<Rightarrow> 'p"
  is_error :: "'p \<Rightarrow> bool"
  parse_request :: "char list \<Rightarrow> nat \<Rightarrow> request \<Rightarrow> bool \<times> request"
  bad_request :: 'p
  store_offsets :: "request \<Rightarrow> nat \<Rightarrow> char list \<Rightarrow> request"
  handle_get_counts :: "'q \<Rightarrow> request \<Rightarrow> 'p \<Rightarrow> 's \<Rightarrow> 'p \<times> 's"
  compose_response_header :: "char list \<Rightarrow> 'p \<Rightarrow> bool \<times> char list"
  parse_response_header :: "char list \<Rightarrow> 'p \<Rightarrow> bool \<times> 'p"
  counts_bytes :: "'s \<Rightarrow> char list"

type_synonym ('q, 'p, 's) outcome =
  "('q, 'p, 's) connection \<times> pending option \<times> socket_call list"

text \<open>\<^verbatim>\<open>request::get_offsets_n_bytes\<close>: the bytes of the offsets, as \<^verbatim>\<open>uint32_t\<close>.\<close>

definition get_offsets_n_bytes :: "request \<Rightarrow> u32" where
  "get_offsets_n_bytes r = of_nat (8 * length (offsets r))"

text \<open>
  \<^verbatim>\<open>connection::prepare_to_read_offsets\<close>: \<^verbatim>\<open>req.offsets.resize(req.n_intervals)\<close>, then
  the two counters.
\<close>

definition prepare_to_read_offsets ::
  "('q, 'p, 's) connection \<Rightarrow> ('q, 'p, 's) connection" where
  "prepare_to_read_offsets c =
     (let n = unat (n_intervals (req c));
          r = (req c)\<lparr>offsets := take n (offsets (req c)) @
                                   replicate (n - length (offsets (req c))) (0, 0)\<rparr>
      in c\<lparr>req := r, offset_remaining := unat (get_offsets_n_bytes r), offset_byte := 0\<rparr>)"

text \<open>
  \<^verbatim>\<open>connection::respond_with_error\<close>. It calls \<^verbatim>\<open>from_chars\<close> on the response buffer:
  the buffer is parsed into \<^verbatim>\<open>resp_hdr\<close>, and the buffer itself is what is written.
\<close>

definition respond_with_error ::
  "('q, 'p, 's) collaborators \<Rightarrow> ('q, 'p, 's) connection \<Rightarrow> ('q, 'p, 's) outcome" where
  "respond_with_error env c =
     (case parse_response_header env (resp_buf c) (resp_hdr c) of
        (resp_err, h) \<Rightarrow>
          (let c' = c\<lparr>resp_hdr := h\<rparr>
           in if resp_err then (c', None, [ShutdownBoth])
              else (c', Some WriteError, [AsyncWrite (resp_buf c')])))"

text \<open>The completion handler of the write in \<^verbatim>\<open>respond_with_error\<close>.\<close>

definition on_write_error ::
  "('q, 'p, 's) connection \<Rightarrow> io_result \<Rightarrow> ('q, 'p, 's) outcome" where
  "on_write_error c ec =
     (case ec of
        Transferred _ \<Rightarrow> (c, None, [ShutdownBoth])
      | IoError \<Rightarrow> (c, None, []))"

text \<open>\<^verbatim>\<open>connection::respond_with_counts\<close> and its completion handler.\<close>

definition respond_with_counts ::
  "('q, 'p, 's) collaborators \<Rightarrow> ('q, 'p, 's) connection \<Rightarrow> ('q, 'p, 's) outcome" where
  "respond_with_counts env c = (c, Some WriteCounts, [AsyncWrite (counts_bytes env (resp c))])"

definition on_write_counts ::
  "('q, 'p, 's) connection \<Rightarrow> io_result \<Rightarrow> ('q, 'p, 's) outcome" where
  "on_write_counts c ec =
     (case ec of
        Transferred _ \<Rightarrow> (c, None, [ShutdownBoth])
      | IoError \<Rightarrow> (c, None, []))"

text \<open>
  \<^verbatim>\<open>connection::respond_with_header\<close>, which composes the response header into the
  response buffer with \<^verbatim>\<open>to_chars\<close>, and its completion handler.
\<close>

definition respond_with_header ::
  "('q, 'p, 's) collaborators \<Rightarrow> ('q, 'p, 's) connection \<Rightarrow> ('q, 'p, 's) outcome" where
  "respond_with_header env c =
     (case compose_response_header env (resp_buf c) (resp_hdr c) of
        (resp_err, b) \<Rightarrow>
          (let c' = c\<lparr>resp_buf := b\<rparr>
           in if resp_err then (c', None, [ShutdownBoth])
              else (c', Some WriteHeader, [AsyncWrite (resp_buf c')])))"

definition on_write_header ::
  "('q, 'p, 's) collaborators \<Rightarrow> ('q, 'p, 's) connection \<Rightarrow> io_result \<Rightarrow>
   ('q, 'p, 's) outcome" where
  "on_write_header env c ec =
     (case ec of
        Transferred _ \<Rightarrow> respond_with_counts env c
      | IoError \<Rightarrow> (c, None, [ShutdownBoth]))"

text \<open>
  \<^verbatim>\<open>connection::read_offsets\<close> starts \<^verbatim>\<open>async_read_some\<close> for the remaining bytes; its
  completion handler counts the bytes (in \<^verbatim>\<open>std::size_t\<close>, 64 bits), and either reads
  on, or hands the request to the handler and responds. On an error it calls
  \<^verbatim>\<open>respond_with_error\<close>.
\<close>

definition read_offsets :: "('q, 'p, 's) connection \<Rightarrow> ('q, 'p, 's) outcome" where
  "read_offsets c = (c, Some ReadOffsets, [AsyncReadSome (offset_byte c) (offset_remaining c)])"

definition on_read_offsets ::
  "('q, 'p, 's) collaborators \<Rightarrow> ('q, 'p, 's) connection \<Rightarrow> io_result \<Rightarrow>
   ('q, 'p, 's) outcome" where
  "on_read_offsets env c ec =
     (case ec of
        Transferred bytes \<Rightarrow>
          (let bytes_transferred = length bytes;
               c1 = c\<lparr>req := store_offsets env (req c) (offset_byte c) bytes,
                       offset_remaining :=
                         (offset_remaining c + 2 ^ 64 - bytes_transferred mod 2 ^ 64) mod 2 ^ 64,
                       offset_byte := (offset_byte c + bytes_transferred) mod 2 ^ 64\<rparr>
           in if offset_remaining c1 = 0 then
                (case handle_get_counts env (req_hdr c1) (req c1) (resp_hdr c1) (resp c1) of
                   (h, s) \<Rightarrow> respond_with_header env (c1\<lparr>resp_hdr := h, resp := s\<rparr>))
              else read_offsets c1)
      | IoError \<Rightarrow> respond_with_error env c)"

text \<open>
  \<^verbatim>\<open>connection::read_request\<close> starts the read of the whole request buffer; its
  completion handler parses the request header, lets the handler check it, parses the
  request, and goes on to the offsets. A failure of either parse sets the response
  header to \<^verbatim>\<open>bad_request()\<close>; after any failure it calls \<^verbatim>\<open>respond_with_error\<close>.
  On an I/O error the handler does nothing.
\<close>

definition read_request ::
  "('q, 'p, 's) collaborators \<Rightarrow> ('q, 'p, 's) connection \<Rightarrow> ('q, 'p, 's) outcome" where
  "read_request env c = (c, Some ReadRequest, [AsyncRead (request_buf_size env)])"

definition on_read_request ::
  "('q, 'p, 's) collaborators \<Rightarrow> ('q, 'p, 's) connection \<Rightarrow> io_result \<Rightarrow>
   ('q, 'p, 's) outcome" where
  "on_read_request env c ec =
     (case ec of
        Transferred bytes \<Rightarrow>
          (let c0 = c\<lparr>req_buf := bytes\<rparr>
           in case parse_request_header env (req_buf c0) (req_hdr c0) of
                (req_hdr_ptr, req_hdr_err, q) \<Rightarrow>
                  (let c1 = c0\<lparr>req_hdr := q\<rparr>
                   in if \<not> req_hdr_err then
                        (let c2 = c1\<lparr>resp_hdr := handle_header env (req_hdr c1) (resp_hdr c1)\<rparr>
                         in if is_error env (resp_hdr c2) then respond_with_error env c2
                            else
                              (case parse_request env (req_buf c2) req_hdr_ptr (req c2) of
                                 (req_err, r) \<Rightarrow>
                                   (let c3 = c2\<lparr>req := r\<rparr>
                                    in if req_err then
                                         respond_with_error env (c3\<lparr>resp_hdr := bad_request env\<rparr>)
                                       else read_offsets (prepare_to_read_offsets c3))))
                      else respond_with_error env (c1\<lparr>resp_hdr := bad_request env\<rparr>)))
      | IoError \<Rightarrow> (c, None, []))"

text \<open>The completion handler of the pending operation.\<close>

definition complete ::
  "('q, 'p, 's) collaborators \<Rightarrow> ('q, 'p, 's) connection \<Rightarrow> pending \<Rightarrow> io_result \<Rightarrow>
   ('q, 'p, 's) outcome" where
  "complete env c p ec =
     (case p of
        ReadRequest \<Rightarrow> on_read_request env c ec
      | ReadOffsets \<Rightarrow> on_read_offsets env c ec
      | WriteHeader \<Rightarrow> on_write_header env c ec
      | WriteCounts \<Rightarrow> on_write_counts c ec
      | WriteError \<Rightarrow> on_write_error c ec)"

text \<open>
  The life of a connection with operation \<open>p\<close> pending, for the results with which its
  operations complete one after the other: all socket calls made, in order. It ends when
  no operation is pending.
\<close>

fun run ::
  "('q, 'p, 's) collaborators \<Rightarrow> ('q, 'p, 's) connection \<Rightarrow> pending \<Rightarrow> io_result list \<Rightarrow>
   socket_call list" where
  "run env c p [] = []"
| "run env c p (ec # ecs) =
     (case complete env c p ec of
        (c', None, calls) \<Rightarrow> calls
      | (c', Some p', calls) \<Rightarrow> calls @ run env c' p' ecs)"

text \<open>The payloads of the writes among socket calls, and whether a call is a read.\<close>

fun written :: "socket_call list \<Rightarrow> char list list" where
  "written [] = []"
| "written (AsyncWrite b # calls) = b # written calls"
| "written (_ # calls) = written calls"

fun is_read :: "socket_call \<Rightarrow> bool" where
  "is_read (AsyncRead _) = True"
| "is_read (AsyncReadSome _ _) = True"
| "is_read _ = False"

text \<open>
  Collaborators to run the connection with: headers are numbers, nothing fails to
  parse, and the handler accepts every request. A connection as it is constructed, with
  all buffers zeroed.
\<close>

definition plain_collaborators :: "(nat, nat, char list) collaborators" where
  "plain_collaborators =
     \<lparr> request_buf_size = 256,
       parse_request_header = (\<lambda>b q. (0, False, q)),
       handle_header = (\<lambda>q p. p),
       is_error = (\<lambda>p. p \<noteq> 0),
       parse_request = (\<lambda>b ptr r. (False, r)),
       bad_request = 1,
       store_offsets = (\<lambda>r at bytes. r),
       handle_get_counts = (\<lambda>q r p s. (p, s)),
       compose_response_header = (\<lambda>b p. (False, b)),
       parse_response_header = (\<lambda>b p. (False, p)),
       counts_bytes = (\<lambda>s. s) \<rparr>"

definition fresh_connection :: "(nat, nat, char list) connection" where
  "fresh_connection =
     \<lparr> req_buf = zero_buf, req_hdr = 0, req = request0, resp_hdr = 0, resp_buf = zero_buf,
       resp = [], offset_byte = 0, offset_remaining = 0 \<rparr>"


section \<open>The set of CpG indexes (cpg_index_set.cpp)\<close>

text \<open>
  \<^verbatim>\<open>struct cpg_index_set\<close>: the directory and the two maps from assembly name to index
  and to index metadata (\<^verbatim>\<open>cpg_index_set.hpp\<close> is not among the sources; the members are
  those the constructor uses). Index and metadata are type parameters.
\<close>

record ('i, 'm) cpg_index_set =
  cpg_index_directory :: string
  assembly_to_cpg_index :: "string \<rightharpoonup> 'i"
  assembly_to_cpg_index_meta :: "string \<rightharpoonup> 'm"

text \<open>
  What the constructor takes from the file system and from code that is not among the
  sources:
  \<^item> \<open>directory_entries d\<close>: the entries that \<^verbatim>\<open>std::filesystem::directory_iterator\<close> yields
    for \<open>d\<close>, each with its path and its file name, in the order of the iteration; none
    when the iterator throws;
  \<^item> \<open>index_filename_matches\<close>: \<^verbatim>\<open>regex_search\<close> with \<^verbatim>\<open>cpg_index_filename_re\<close>, the pattern
    built from the constant \<^verbatim>\<open>cpg_index::filename_extension\<close>;
  \<^item> \<open>read_index\<close>: \<^verbatim>\<open>cpg_index::read\<close>, none when it returns an error;
  \<^item> \<open>meta_filename\<close>: \<^verbatim>\<open>get_default_cpg_index_meta_filename\<close>;
  \<^item> \<open>read_meta\<close>: \<^verbatim>\<open>cpg_index_meta::read\<close>, none when it returns an error.
\<close>

record ('i, 'm) index_files =
  directory_entries :: "string \<Rightarrow> (string \<times> string) list option"
  index_filename_matches :: "string \<Rightarrow> bool"
  read_index :: "string \<Rightarrow> 'i option"
  meta_filename :: "string \<Rightarrow> string"
  read_meta :: "string \<Rightarrow> 'm option"

text \<open>
  \<^verbatim>\<open>regex_search(name, base_match, assembly_re)\<close> for the pattern
  \<^verbatim>\<open>^[_[:alnum:]]+\<close>: the longest prefix of letters, digits and underscores, which must
  not be empty.
\<close>

definition is_assembly_char :: "char \<Rightarrow> bool" where
  "is_assembly_char c \<longleftrightarrow>
     (let n = (of_char c :: nat)
      in n = 95 \<or> (48 \<le> n \<and> n \<le> 57) \<or> (65 \<le> n \<and> n \<le> 90) \<or> (97 \<le> n \<and> n \<le> 122))"

definition assembly_match :: "string \<Rightarrow> string option" where
  "assembly_match name =
     (let m = takeWhile is_assembly_char name in if m = [] then None else Some m)"

text \<open>\<^verbatim>\<open>std::unordered_map::emplace\<close>: a key that is present keeps its value.\<close>

definition emplace :: "('k \<rightharpoonup> 'v) \<Rightarrow> 'k \<Rightarrow> 'v \<Rightarrow> ('k \<rightharpoonup> 'v)" where
  "emplace m k v = (case m k of None \<Rightarrow> m(k \<mapsto> v) | Some _ \<Rightarrow> m)"

text \<open>
  The loop of the constructor over the directory entries. A failed read clears both maps
  and returns.
\<close>

fun load_entries ::
  "('i, 'm) index_files \<Rightarrow> (string \<times> string) list \<Rightarrow> ('i, 'm) cpg_index_set \<Rightarrow>
   ('i, 'm) cpg_index_set" where
  "load_entries fs [] s = s"
| "load_entries fs ((path, name) # entries) s =
     (if index_filename_matches fs name then
        (case assembly_match name of
           None \<Rightarrow> load_entries fs entries s
         | Some assembly \<Rightarrow>
             (case read_index fs path of
                None \<Rightarrow>
                  s\<lparr>assembly_to_cpg_index := Map.empty,
                    assembly_to_cpg_index_meta := Map.empty\<rparr>
              | Some index \<Rightarrow>
                  (let s1 = s\<lparr>assembly_to_cpg_index :=
                                emplace (assembly_to_cpg_index s) assembly index\<rparr>
                   in case read_meta fs (meta_filename fs path) of
                        None \<Rightarrow>
                          s1\<lparr>assembly_to_cpg_index := Map.empty,
                             assembly_to_cpg_index_meta := Map.empty\<rparr>
                      | Some cim \<Rightarrow>
                          load_entries fs entries
                            (s1\<lparr>assembly_to_cpg_index_meta :=
                                  emplace (assembly_to_cpg_index_meta s1) assembly cim\<rparr>))))
      else load_entries fs entries s)"

text \<open>
  The constructor \<^verbatim>\<open>cpg_index_set::cpg_index_set\<close>: both maps start empty. When the
  directory cannot be iterated the constructor throws and no set is constructed.
\<close>

definition new_cpg_index_set ::
  "('i, 'm) index_files \<Rightarrow> string \<Rightarrow> ('i, 'm) cpg_index_set option" where
  "new_cpg_index_set fs directory =
     (case directory_entries fs directory of
        None \<Rightarrow> None
      | Some entries \<Rightarrow>
          Some (load_entries fs entries
                  \<lparr> cpg_index_directory = directory, assembly_to_cpg_index = Map.empty,
                    assembly_to_cpg_index_meta = Map.empty \<rparr>))"

text \<open>
  The assemblies discovered in a listing, and whether reading the index or the metadata
  of one of its index files fails.
\<close>

definition discovered :: "('i, 'm) index_files \<Rightarrow> (string \<times> string) list \<Rightarrow> string set" where
  "discovered fs entries =
     {a. \<exists>(path, name) \<in> set entries.
           index_filename_matches fs name \<and> assembly_match name = Some a}"

definition some_read_fails :: "('i, 'm) index_files \<Rightarrow> (string \<times> string) list \<Rightarrow> bool" where
  "some_read_fails fs entries \<longleftrightarrow>
     (\<exists>(path, name) \<in> set entries.
        index_filename_matches fs name \<and> assembly_match name \<noteq> None \<and>
        (read_index fs path = None \<or> read_meta fs (meta_filename fs path) = None))"

text \<open>
  A directory with the indexes of two assemblies and a file that is no index; every
  index and every metadata file reads as its own name.
\<close>

definition two_indexes :: "(string, string) index_files" where
  "two_indexes =
     \<lparr> directory_entries =
         (\<lambda>d. Some [(''idx/hg38.cpg_idx'', ''hg38.cpg_idx''), (''idx/README'', ''README''),
                    (''idx/mm39.cpg_idx'', ''mm39.cpg_idx'')]),
       index_filename_matches = (\<lambda>name. drop (length name - 8) name = ''.cpg_idx''),
       read_index = (\<lambda>path. Some path),
       meta_filename = (\<lambda>path. path @ ''.json''),
       read_meta = (\<lambda>path. Some path) \<rparr>"


section \<open>The offset query counts CpG positions\<close>

lemma filter_take_iff:
  "r \<le> length xs \<Longrightarrow> (\<forall>i < length xs. (i < r) = P (xs ! i)) \<Longrightarrow> filter P xs = take r xs"
proof (induction xs arbitrary: r)
  case Nil
  then show ?case by simp
next
  case (Cons x xs)
  show ?case
  proof (cases r)
    case 0
    with Cons.prems have "\<forall>y \<in> set (x # xs). \<not> P y"
      by (metis in_set_conv_nth less_nat_zero_code)
    then show ?thesis using 0 by simp
  next
    case (Suc r')
    from Cons.prems Suc have px: "P x" by auto
    have "\<forall>i < length xs. (i < r') = P (xs ! i)"
      using Cons.prems(2) Suc by auto
    with Cons.IH [of r'] Cons.prems(1) Suc have "filter P xs = take r' xs" by simp
    with px Suc show ?thesis by simp
  qed
qed

lemma lower_bound_inv:
  "sorted xs \<Longrightarrow> first + count \<le> length xs \<Longrightarrow>
   (\<forall>i < first. xs ! i < v) \<Longrightarrow> (\<forall>i. first + count \<le> i \<and> i < length xs \<longrightarrow> \<not> xs ! i < v) \<Longrightarrow>
   (let r = lower_bound xs first count v in
      r \<le> length xs \<and> (\<forall>i < length xs. (i < r) = (xs ! i < v)))"
proof (induction xs first count v rule: lower_bound.induct)
  case (1 xs first count v)
  show ?case
  proof (cases "0 < count")
    case False
    then have "lower_bound xs first count v = first"
      by (simp add: lower_bound.simps)
    moreover have "\<forall>i < length xs. (i < first) = (xs ! i < v)"
      using "1.prems" False by (metis add.right_neutral not_less not_gr_zero)
    ultimately show ?thesis using "1.prems" by simp
  next
    case True
    define step where "step = count div 2"
    define it where "it = first + step"
    have it_lt: "it < length xs" using True "1.prems"(2) by (simp add: it_def step_def; linarith?)
    show ?thesis
    proof (cases "xs ! it < v")
      case lt: True
      have eq: "lower_bound xs first count v = lower_bound xs (it + 1) (count - (step + 1)) v"
        using True lt by (subst lower_bound.simps) (simp add: Let_def it_def step_def)
      have a: "it + 1 + (count - (step + 1)) \<le> length xs"
        using "1.prems"(2) True by (simp add: it_def step_def; linarith?)
      have b: "\<forall>i < it + 1. xs ! i < v"
      proof (intro allI impI)
        fix i assume "i < it + 1"
        then have "i \<le> it" by simp
        then have "xs ! i \<le> xs ! it" using "1.prems"(1) it_lt by (simp add: sorted_nth_mono)
        with lt show "xs ! i < v" by simp
      qed
      have c: "\<forall>i. it + 1 + (count - (step + 1)) \<le> i \<and> i < length xs \<longrightarrow> \<not> xs ! i < v"
      proof -
        have "it + 1 + (count - (step + 1)) = first + count"
          using True by (simp add: it_def step_def; linarith?)
        then show ?thesis using "1.prems"(4) by simp
      qed
      from "1.IH"(1) [OF True step_def it_def lt "1.prems"(1) a b c] eq
      show ?thesis by simp
    next
      case ge: False
      have eq: "lower_bound xs first count v = lower_bound xs first step v"
        using True ge by (subst lower_bound.simps) (simp add: Let_def it_def step_def)
      have a: "first + step \<le> length xs" using it_lt by (simp add: it_def)
      have c: "\<forall>i. first + step \<le> i \<and> i < length xs \<longrightarrow> \<not> xs ! i < v"
      proof (intro allI impI)
        fix i assume h: "first + step \<le> i \<and> i < length xs"
        then have "xs ! it \<le> xs ! i" using "1.prems"(1) by (simp add: sorted_nth_mono it_def)
        with ge show "\<not> xs ! i < v" by simp
      qed
      from "1.IH"(2) [OF True step_def it_def ge "1.prems"(1) a "1.prems"(3) c] eq
      show ?thesis by simp
    qed
  qed
qed


lemma lower_bound_counts:
  assumes "sorted xs"
  shows "lower_bound xs 0 (length xs) v = length (filter (\<lambda>p. p < v) xs)"
proof -
  define r where "r = lower_bound xs 0 (length xs) v"
  have "r \<le> length xs \<and> (\<forall>i < length xs. (i < r) = (xs ! i < v))"
    using lower_bound_inv [of xs 0 "length xs" v] assms unfolding r_def Let_def by fastforce
  then have "filter (\<lambda>p. p < v) xs = take r xs" and "r \<le> length xs"
    by (simp_all add: filter_take_iff)
  then show ?thesis by (simp add: r_def)
qed

lemma filter_below_split:
  fixes xs :: "('a::linorder) list"
  assumes "a \<le> b"
  shows "length (filter (\<lambda>p. p < b) xs) =
         length (filter (\<lambda>p. p < a) xs) + length (filter (\<lambda>p. a \<le> p \<and> p < b) xs)"
  using assms by (induction xs) auto

lemma prefix_lengths_le:
  "i < length xss \<Longrightarrow>
   sum_list (map length (take i xss)) + length (xss ! i) \<le> sum_list (map length xss)"
proof -
  assume "i < length xss"
  then have "xss = take i xss @ xss ! i # drop (Suc i) xss"
    by (rule id_take_nth_drop)
  then have "sum_list (map length xss) =
      sum_list (map length (take i xss)) + length (xss ! i) + sum_list (map length (drop (Suc i) xss))"
    by (metis (no_types, lifting) add.assoc list.simps(9) map_append sum_list.Cons sum_list_append)
  then show ?thesis by simp
qed

lemma cpg_index_wf_offset_bound:
  assumes "cpg_index_wf idx" "i < length (positions idx)"
  shows "unat (chrom_offset idx ! i) + length (positions idx ! i) < 2 ^ 32"
proof -
  have "unat (chrom_offset idx ! i) = sum_list (map length (take i (positions idx)))"
    using assms by (simp add: cpg_index_wf_def)
  moreover have "unat (n_cpgs_total idx) = sum_list (map length (positions idx))"
    using assms by (simp add: cpg_index_wf_def)
  moreover have "unat (n_cpgs_total idx) < 2 ^ 32"
    using unsigned_less [of "n_cpgs_total idx"] by simp
  ultimately show ?thesis using prefix_lengths_le [OF assms(2)] by linarith
qed

lemma cpg_index_wf_sorted:
  assumes "cpg_index_wf idx" "i < length (positions idx)"
  shows "sorted (positions idx ! i)"
proof -
  have "sorted_wrt (<) (positions idx ! i)"
    using assms by (simp add: cpg_index_wf_def)
  then show ?thesis by (rule strict_sorted_imp_sorted)
qed

lemma get_offset_within_chrom_count:
  assumes "cpg_index_wf idx" "0 \<le> ch_id" "nat ch_id < length (positions idx)"
  shows "get_offset_within_chrom idx ch_id pos =
         Inr (of_nat (length (filter (\<lambda>p. p < pos) (positions idx ! nat ch_id))))"
  using assms cpg_index_wf_sorted [OF assms(1,3)]
  by (simp add: get_offset_within_chrom_def Let_def lower_bound_counts)

lemma get_offsets_within_chrom_count:
  assumes "cpg_index_wf idx" "0 \<le> ch_id" "nat ch_id < length (positions idx)"
  shows "get_offsets_within_chrom idx ch_id pos =
         Inr (map (\<lambda>(start, stop).
                (of_nat (length (filter (\<lambda>p. p < start) (positions idx ! nat ch_id))),
                 of_nat (length (filter (\<lambda>p. p < stop) (positions idx ! nat ch_id))))) pos)"
  by (induction pos) (auto simp: get_offset_within_chrom_count [OF assms])

lemma unat_offset_plus_count:
  fixes offset :: u32
  assumes "unat offset + n < 2 ^ 32" "m \<le> n"
  shows "unat (offset + of_nat m) = unat offset + m"
proof -
  have "m < 2 ^ 32" using assms by simp
  then have "unat (of_nat m :: u32) = m" by (simp add: unat_of_nat)
  moreover have "unat offset + m < 2 ^ 32" using assms by simp
  ultimately show ?thesis by (simp add: unat_add_lem [THEN iffD1])
qed

text \<open>
  C1. In a well-formed index, for a chromosome id of the index, the offset query answers
  every \<open>(start, stop)\<close> with the pair \<open>(lo, hi)\<close> of global offsets:
  \<open>lo\<close> is \<^verbatim>\<open>chrom_offset[ch_id]\<close> plus the number of CpG positions of the chromosome
  below \<open>start\<close>, \<open>hi\<close> the same for \<open>stop\<close>; and when \<open>start \<le> stop\<close>, \<open>lo \<le> hi\<close>
  and \<open>hi - lo\<close> is the number of positions \<open>p\<close> with \<open>start \<le> p < stop\<close>.
\<close>

theorem get_offsets_counts:
  assumes wf: "cpg_index_wf idx"
    and ch: "0 \<le> ch_id" "nat ch_id < length (positions idx)"
  shows "\<exists>res. get_offsets idx ch_id pos = Inr res \<and> length res = length pos \<and>
     (\<forall>k < length pos.
        (case (pos ! k, res ! k) of ((start, stop), (lo, hi)) \<Rightarrow>
           unat lo = unat (chrom_offset idx ! nat ch_id) +
                     length (filter (\<lambda>p. p < start) (positions idx ! nat ch_id)) \<and>
           unat hi = unat (chrom_offset idx ! nat ch_id) +
                     length (filter (\<lambda>p. p < stop) (positions idx ! nat ch_id)) \<and>
           (start \<le> stop \<longrightarrow> lo \<le> hi \<and>
              unat hi - unat lo =
                length (filter (\<lambda>p. start \<le> p \<and> p < stop) (positions idx ! nat ch_id)))))"
proof -
  define ps where "ps = positions idx ! nat ch_id"
  define offset where "offset = chrom_offset idx ! nat ch_id"
  define below where "below = (\<lambda>x. length (filter (\<lambda>p. p < x) ps))"
  define res where
    "res = map (\<lambda>(lo, hi). (offset + lo, offset + hi))
             (map (\<lambda>(start, stop). (of_nat (below start), of_nat (below stop) :: u32)) pos)"
  have len: "length (chrom_offset idx) = length (positions idx)"
    using wf by (simp add: cpg_index_wf_def)
  have run: "get_offsets idx ch_id pos = Inr res"
    using ch len
    by (simp add: get_offsets_def get_offsets_within_chrom_count [OF wf ch]
        res_def below_def ps_def offset_def Let_def)
  have bound: "unat offset + length ps < 2 ^ 32"
    using cpg_index_wf_offset_bound [OF wf ch(2)] by (simp add: offset_def ps_def)
  have below_le: "below x \<le> length ps" for x by (simp add: below_def)
  have val: "unat (offset + of_nat (below x)) = unat offset + below x" for x
    by (rule unat_offset_plus_count [OF bound below_le])
  have each: "case (pos ! k, res ! k) of ((start, stop), (lo, hi)) \<Rightarrow>
           unat lo = unat offset + below start \<and>
           unat hi = unat offset + below stop \<and>
           (start \<le> stop \<longrightarrow> lo \<le> hi \<and>
              unat hi - unat lo = length (filter (\<lambda>p. start \<le> p \<and> p < stop) ps))"
    if k: "k < length pos" for k
  proof -
    obtain start stop where sk: "pos ! k = (start, stop)" by (cases "pos ! k")
    have rk: "res ! k = (offset + of_nat (below start), offset + of_nat (below stop))"
      using k sk by (simp add: res_def)
    have split: "below stop = below start + length (filter (\<lambda>p. start \<le> p \<and> p < stop) ps)"
      if "start \<le> stop"
      unfolding below_def by (rule filter_below_split [OF that])
    have vlo: "unat (offset + of_nat (below start)) = unat offset + below start"
      by (rule val)
    have vhi: "unat (offset + of_nat (below stop)) = unat offset + below stop"
      by (rule val)
    have ord: "(offset + of_nat (below start) \<le> offset + of_nat (below stop)) =
               (below start \<le> below stop)"
      by (simp only: word_le_nat_alt vlo vhi) simp
    show ?thesis
      unfolding sk rk prod.case vlo vhi ord using split by simp
  qed
  show ?thesis
    using run each by (auto simp: res_def ps_def offset_def below_def)
qed

theorem get_offsets_counts_witness:
  "cpg_index_wf s1_index \<and>
   get_offsets s1_index 0 [(3, 7)] = Inr [(1, 3)] \<and>
   get_offsets s1_index 1 [(0, 2)] = Inr [(3, 4)] \<and>
   length (filter (\<lambda>p. 3 \<le> p \<and> p < 7) (positions s1_index ! 0)) = 2"
proof -
  have wf: "cpg_index_wf s1_index"
    by code_simp
  have ch: "(0::int) \<le> 0" "nat 0 < length (positions s1_index)"
    by (simp_all add: s1_index_def)
  have a: "get_offsets s1_index 0 [(3, 7)] = Inr [(1, 3)]"
    by code_simp
  have b: "get_offsets s1_index 1 [(0, 2)] = Inr [(3, 4)]"
    by code_simp
  have c: "length (filter (\<lambda>p. 3 \<le> p \<and> p < 7) (positions s1_index ! 0)) = 2"
    by (simp add: s1_index_def)
  show ?thesis
    using wf a b c get_offsets_counts [OF wf ch, of "[(3, 7)]"] by simp
qed

section \<open>The bins walk and the bins kernel\<close>

lemma n_bins_less_iff:
  assumes "0 < b"
  shows "k < n_bins s b \<longleftrightarrow> k * b < s"
proof -
  have "k < n_bins s b \<longleftrightarrow> Suc k \<le> (s + b - 1) div b"
    by (simp add: n_bins_def Suc_le_eq)
  also have "\<dots> \<longleftrightarrow> Suc k * b \<le> s + b - 1"
    using assms by (simp add: less_eq_div_iff_mult_less_eq)
  also have "\<dots> \<longleftrightarrow> k * b < s"
    using assms by (cases s) auto
  finally show ?thesis .
qed

lemma n_bins_mult_bounds:
  assumes "0 < b"
  shows "s \<le> n_bins s b * b" and "n_bins s b * b < s + b"
proof -
  have "\<not> n_bins s b < n_bins s b" by simp
  then show "s \<le> n_bins s b * b"
    using n_bins_less_iff [OF assms, of "n_bins s b" s] by simp
  show "n_bins s b * b < s + b"
  proof (cases "n_bins s b")
    case 0
    then show ?thesis using assms by simp
  next
    case (Suc m)
    then have "m < n_bins s b" by simp
    then have "m * b < s" using n_bins_less_iff [OF assms] by simp
    then show ?thesis using Suc by simp
  qed
qed

lemma unat_bin_start:
  fixes B S :: u32
  assumes "0 < unat B" "unat S + unat B \<le> 2 ^ 32" "k \<le> n_bins (unat S) (unat B)"
  shows "unat (of_nat k * B) = k * unat B"
proof -
  have "k * unat B \<le> n_bins (unat S) (unat B) * unat B"
    using assms(3) by simp
  also have "\<dots> < unat S + unat B"
    by (rule n_bins_mult_bounds(2) [OF assms(1)])
  finally have lt: "k * unat B < 2 ^ 32" using assms(2) by simp
  have "of_nat k * B = (of_nat (k * unat B) :: u32)" by simp
  moreover have "unat (of_nat (k * unat B) :: u32) = k * unat B"
    using lt by (simp only: unat_of_nat) simp
  ultimately show ?thesis by simp
qed

lemma bin_start_less:
  fixes B S :: u32
  assumes "0 < unat B" "unat S + unat B \<le> 2 ^ 32" "k \<le> n_bins (unat S) (unat B)"
  shows "of_nat k * B < S \<longleftrightarrow> k < n_bins (unat S) (unat B)"
  by (simp add: word_less_nat_alt unat_bin_start [OF assms] n_bins_less_iff [OF assms(1)])

lemma bin_start_step:
  fixes B :: u32
  shows "of_nat k * B + B = of_nat (Suc k) * B"
  by (simp add: algebra_simps)

lemma bin_end_value:
  fixes B S :: u32
  assumes "0 < unat B" "unat S + unat B \<le> 2 ^ 32" "k < n_bins (unat S) (unat B)"
  shows "unat (min (of_nat k * B + B) S) = min (Suc k * unat B) (unat S)"
proof -
  have "Suc k \<le> n_bins (unat S) (unat B)" using assms(3) by simp
  then have "unat (of_nat (Suc k) * B) = Suc k * unat B"
    by (rule unat_bin_start [OF assms(1,2)])
  then show ?thesis
    by (simp only: bin_start_step) (simp add: min_def word_le_nat_alt)
qed

















lemma chrom_bins_cycle:
  "i = 0 \<or> i = 2147483648 \<Longrightarrow>
   chrom_bins fuel 2147483648 3221225472 i [] [] = Inl OutOfFuel"
proof (induction fuel arbitrary: i)
  case 0
  then show ?case by simp
next
  case (Suc fuel)
  from Suc.prems have "i + 2147483648 = 0 \<or> i + 2147483648 = (2147483648 :: u32)"
    by auto
  then have "chrom_bins fuel 2147483648 3221225472 (i + 2147483648) [] [] = Inl OutOfFuel"
    by (rule Suc.IH)
  moreover have "i < (3221225472 :: u32)" using Suc.prems by auto
  ultimately show ?case by (simp add: bin_counts_def Let_def)
qed

lemma write_bins_chrom_cycle:
  "i = 0 \<or> i = 2147483648 \<Longrightarrow>
   isl (write_bins_chrom fuel 2147483648 name 3221225472 i results)"
proof (induction fuel arbitrary: i results)
  case 0
  then show ?case by simp
next
  case (Suc fuel)
  have lt: "i < (3221225472 :: u32)" using Suc.prems by auto
  show ?case
  proof (cases results)
    case Nil
    then show ?thesis using lt by simp
  next
    case (Cons r results')
    from Suc.prems have "i + 2147483648 = 0 \<or> i + 2147483648 = (2147483648 :: u32)"
      by auto
    then have "isl (write_bins_chrom fuel 2147483648 name 3221225472 (i + 2147483648) results')"
      by (rule Suc.IH)
    then show ?thesis using lt Cons by (auto simp: Let_def split: sum.splits)
  qed
qed

text \<open>
  C3. A chromosome of \<open>3 * 2 ^ 30\<close> bases walked with bins of \<open>2 ^ 31\<close> bases: after the
  first bin the 32-bit sum \<^verbatim>\<open>i + bin_size\<close> is 0, the second bin ends at 0 and the walk
  is back at \<open>i = 0\<close>. Whatever the number of iterations allowed, \<^verbatim>\<open>bins_main\<close> has
  not returned, and \<^verbatim>\<open>write_bins\<close> never returns its lines, for any results given.
\<close>

theorem bins_walk_wraps:
  "bins_main fuel long_index empty_methylome 2147483648 = Inl OutOfFuel \<and>
   isl (write_bins fuel long_meta 2147483648 results)"
proof
  show "bins_main fuel long_index empty_methylome 2147483648 = Inl OutOfFuel"
    by (simp add: bins_main_def long_index_def empty_methylome_def chrom_bins_cycle)
  have "isl (write_bins_chrom fuel 2147483648 ''chr1'' 3221225472 0 results)"
    by (rule write_bins_chrom_cycle) simp
  then show "isl (write_bins fuel long_meta 2147483648 results)"
    by (auto simp: write_bins_def long_meta_def split: sum.splits)
qed










lemma write_bins_chrom_done:
  fixes B S :: u32
  assumes "0 < unat B" "unat S + unat B \<le> 2 ^ 32"
  shows "write_bins_chrom (Suc fuel) B name S (of_nat (n_bins (unat S) (unat B)) * B) results =
         Inr ([], results)"
  using bin_start_less [OF assms, of "n_bins (unat S) (unat B)"] by simp

lemma write_bins_chrom_rows:
  fixes B S :: u32
  assumes b: "0 < unat B" and nowrap: "unat S + unat B \<le> 2 ^ 32"
  shows "k \<le> n_bins (unat S) (unat B) \<Longrightarrow> n_bins (unat S) (unat B) - k < fuel \<Longrightarrow>
     n_bins (unat S) (unat B) - k \<le> length results \<Longrightarrow>
     write_bins_chrom fuel B name S (of_nat k * B) results =
       Inr (map (\<lambda>j. (name, of_nat j * B, min (of_nat (Suc j) * B) S, results ! (j - k)))
              [k..<n_bins (unat S) (unat B)],
            drop (n_bins (unat S) (unat B) - k) results)"
proof (induction fuel arbitrary: k results)
  case 0
  then show ?case by simp
next
  case (Suc fuel)
  define n where "n = n_bins (unat S) (unat B)"
  show ?case
  proof (cases "k = n")
    case True
    then show ?thesis
      using write_bins_chrom_done [OF b nowrap, of fuel name results] by (simp add: n_def)
  next
    case False
    then have kn: "k < n" using Suc.prems(1) by (simp add: n_def)
    have lt: "of_nat k * B < S"
      using bin_start_less [OF b nowrap, of k] kn by (simp add: n_def)
    obtain r results' where res: "results = r # results'"
      using Suc.prems(3) kn by (cases results) (auto simp: n_def)
    have rest: "write_bins_chrom fuel B name S (of_nat (Suc k) * B) results' =
       Inr (map (\<lambda>j. (name, of_nat j * B, min (of_nat (Suc j) * B) S, results' ! (j - Suc k)))
              [Suc k..<n_bins (unat S) (unat B)],
            drop (n_bins (unat S) (unat B) - Suc k) results')"
      using Suc.prems kn res by (intro Suc.IH) (auto simp: n_def)
    have idx: "map (\<lambda>j. (name, of_nat j * B, min (of_nat (Suc j) * B) S, results' ! (j - Suc k)))
              [Suc k..<n] =
          map (\<lambda>j. (name, of_nat j * B, min (of_nat (Suc j) * B) S, results ! (j - k)))
              [Suc k..<n]"
      by (rule map_cong) (auto simp: res Suc_diff_le)
    have "n - k = Suc (n - Suc k)" using kn by simp
    then have dr: "drop (n - Suc k) results' = drop (n - k) results"
      by (simp only: res drop_Suc_Cons)
    have "write_bins_chrom (Suc fuel) B name S (of_nat k * B) results =
          Inr ((name, of_nat k * B, min (of_nat (Suc k) * B) S, r) #
               map (\<lambda>j. (name, of_nat j * B, min (of_nat (Suc j) * B) S, results ! (j - k)))
                 [Suc k..<n],
               drop (n - k) results)"
      using lt unfolding res [symmetric]
      by (simp only: write_bins_chrom.simps if_True Let_def bin_start_step res list.case rest
          n_def [symmetric] idx [unfolded res] dr [unfolded res] sum.case prod.case)
    also have "\<dots> = Inr (map (\<lambda>j. (name, of_nat j * B, min (of_nat (Suc j) * B) S, results ! (j - k)))
                 [k..<n], drop (n - k) results)"
      using kn by (simp add: upt_conv_Cons res)
    finally show ?thesis unfolding n_def .
  qed
qed

lemma write_bins_chrom_partition:
  fixes B S :: u32
  assumes b: "0 < unat B" and nowrap: "unat S + unat B \<le> 2 ^ 32"
    and fuel: "n_bins (unat S) (unat B) < fuel"
    and res: "n_bins (unat S) (unat B) \<le> length results"
  shows "\<exists>rows. write_bins_chrom fuel B name S 0 results =
             Inr (rows, drop (n_bins (unat S) (unat B)) results) \<and>
           length rows = n_bins (unat S) (unat B) \<and>
           (\<forall>k < n_bins (unat S) (unat B).
              (case rows ! k of (chrom, bin_beg, bin_end, r) \<Rightarrow>
                 chrom = name \<and> unat bin_beg = k * unat B \<and>
                 unat bin_end = min ((k + 1) * unat B) (unat S) \<and> r = results ! k))"
proof -
  define n where "n = n_bins (unat S) (unat B)"
  define rows where
    "rows = map (\<lambda>j. (name, of_nat j * B, min (of_nat (Suc j) * B) S, results ! (j - 0))) [0..<n]"
  have "write_bins_chrom fuel B name S (of_nat 0 * B) results = Inr (rows, drop (n - 0) results)"
    unfolding rows_def n_def using fuel res by (intro write_bins_chrom_rows [OF b nowrap]) auto
  then have run: "write_bins_chrom fuel B name S 0 results = Inr (rows, drop n results)"
    by simp
  have each: "case rows ! k of (chrom, bin_beg, bin_end, r) \<Rightarrow>
                 chrom = name \<and> unat bin_beg = k * unat B \<and>
                 unat bin_end = min ((k + 1) * unat B) (unat S) \<and> r = results ! k"
    if k: "k < n" for k
  proof -
    have rk: "rows ! k = (name, of_nat k * B, min (of_nat (Suc k) * B) S, results ! k)"
      using k by (simp add: rows_def del: of_nat_Suc)
    have beg: "unat (of_nat k * B) = k * unat B"
      using k by (intro unat_bin_start [OF b nowrap]) (simp add: n_def)
    have "unat (min (of_nat k * B + B) S) = min (Suc k * unat B) (unat S)"
      using k by (intro bin_end_value [OF b nowrap]) (simp add: n_def)
    then have fin: "unat (min (of_nat (Suc k) * B) S) = min ((k + 1) * unat B) (unat S)"
      by (simp only: bin_start_step Suc_eq_plus1)
    show ?thesis unfolding rk prod.case using beg fin by simp
  qed
  show ?thesis
    using run each by (intro exI [of _ rows]) (simp add: rows_def n_def)
qed

section \<open>Encoding and decoding the request header\<close>

lemma is_digit_digit_char: "d < 10 \<Longrightarrow> is_digit (digit_char d)"
  by (simp add: is_digit_def digit_char_def)

lemma digit_val_digit_char: "d < 10 \<Longrightarrow> digit_val (digit_char d) = d"
  by (simp add: digit_val_def digit_char_def)

lemma not_digit_delim: "\<not> is_digit delim" and not_digit_term: "\<not> is_digit term_char"
  by (simp_all add: is_digit_def delim_def term_char_def)

lemma dec_digits_nonempty: "dec_digits n \<noteq> []"
  by (subst dec_digits.simps) simp

lemma dec_digits_all_digits: "\<forall>c \<in> set (dec_digits n). is_digit c"
proof (induction n rule: dec_digits.induct)
  case (1 n)
  show ?case
  proof (cases "n < 10")
    case True
    then show ?thesis by (subst dec_digits.simps) (simp add: is_digit_digit_char)
  next
    case False
    then show ?thesis
      using "1.IH" by (subst dec_digits.simps) (simp add: is_digit_digit_char)
  qed
qed

lemma digits_value_snoc: "digits_value (ds @ [c]) = 10 * digits_value ds + digit_val c"
  by (simp add: digits_value_def)

lemma digits_value_dec_digits: "digits_value (dec_digits n) = n"
proof (induction n rule: dec_digits.induct)
  case (1 n)
  show ?case
  proof (cases "n < 10")
    case True
    then show ?thesis
      by (subst dec_digits.simps) (simp add: digits_value_def digit_val_digit_char)
  next
    case False
    then have "digits_value (dec_digits (n div 10)) = n div 10" by (rule "1.IH")
    then show ?thesis
      using False
      by (subst dec_digits.simps) (simp add: digits_value_snoc digit_val_digit_char)
  qed
qed

lemma takeWhile_digits:
  assumes "\<forall>x \<in> set ds. is_digit x" "\<not> is_digit c" "length ds \<le> k"
  shows "takeWhile is_digit (take k (ds @ c # rest)) = ds"
proof -
  have "take k (ds @ c # rest) = ds @ take (k - length ds) (c # rest)"
    using assms(3) by simp
  moreover have "takeWhile is_digit (take (k - length ds) (c # rest)) = []"
    using assms(2) by (cases "k - length ds") simp_all
  ultimately show ?thesis using assms(1) by (simp add: takeWhile_append2)
qed

lemma from_chars_number:
  assumes "drop first b = ds @ c # rest" "ds \<noteq> []" "\<forall>x \<in> set ds. is_digit x"
    "\<not> is_digit c" "first + length ds \<le> lst" "digits_value ds < 2 ^ 32"
  shows "from_chars b first lst v = (first + length ds, errc_none, of_nat (digits_value ds))"
proof -
  have "length ds \<le> lst - first" using assms(5) by simp
  then have "takeWhile is_digit (take (lst - first) (drop first b)) = ds"
    unfolding assms(1) by (rule takeWhile_digits [OF assms(3,4)])
  then show ?thesis using assms(2,6) by (simp add: from_chars_def Let_def)
qed

lemma find_char_first:
  assumes "b = pre @ c # rest" "c \<notin> set pre" "length pre < data_end"
  shows "find_char b data_end c = length pre"
proof -
  have "take data_end b = pre @ c # take (data_end - Suc (length pre)) rest"
    using assms(1,3) by (simp add: take_Cons')
  moreover have "takeWhile (\<lambda>x. x \<noteq> c) (pre @ c # take (data_end - Suc (length pre)) rest) = pre"
    using assms(2) by (subst takeWhile_append2) auto
  ultimately show ?thesis by (simp add: find_char_def Let_def)
qed

lemma find_char_le: "find_char b data_end c \<le> data_end"
  by (simp add: find_char_def Let_def)

lemma to_buffer_text:
  assumes "length (buf r) = buf_size" "length (request_text r) \<le> buf_size"
  shows "to_buffer r =
         Inr (ok, r\<lparr>buf := request_text r @ replicate (buf_size - length (request_text r)) nul\<rparr>)"
proof -
  have "fill_n (buf r) buf_size nul = Inr (replicate buf_size nul)"
    using assms(1) by (simp add: fill_n_def)
  moreover have "copy_to (request_text r) (replicate buf_size nul) =
      Inr (request_text r @ replicate (buf_size - length (request_text r)) nul)"
    using assms(2) by (simp add: copy_to_def)
  ultimately show ?thesis by (simp add: to_buffer_def Let_def)
qed

lemma from_buffer_text:
  assumes shape: "buf r = acc @ delim # d1 @ delim # d2 @ term_char # pad"
    and size: "length acc + length d1 + length d2 + 3 \<le> buf_size"
    and acc: "delim \<notin> set acc"
    and d1: "d1 \<noteq> []" "\<forall>x \<in> set d1. is_digit x" "digits_value d1 < 2 ^ 32"
    and d2: "d2 \<noteq> []" "\<forall>x \<in> set d2. is_digit x" "digits_value d2 < 2 ^ 32"
  shows "from_buffer r =
         Inr (ok, r\<lparr>accession := acc, methylome_size := of_nat (digits_value d1),
                    n_intervals := of_nat (digits_value d2)\<rparr>)"
proof -
  define p1 where "p1 = length acc + 1 + length d1"
  define p2 where "p2 = p1 + 1 + length d2"
  have c0: "find_char (buf r) buf_size delim = length acc"
    using size by (intro find_char_first [OF shape acc]) simp
  have ne: "length acc \<noteq> buf_size" using size by simp
  have tk: "take (length acc) (buf r) = acc" by (simp add: shape)
  have at0: "buf r ! length acc = delim" by (simp add: shape)
  have dr1: "drop (length acc + 1) (buf r) = d1 @ delim # (d2 @ term_char # pad)"
    by (simp add: shape)
  have f1: "from_chars (buf r) (length acc + 1) buf_size v =
            (p1, errc_none, of_nat (digits_value d1))" for v
    unfolding p1_def using size
    by (intro from_chars_number [OF dr1 d1(1,2) not_digit_delim _ d1(3)]) simp
  have lt1: "\<not> buf_size \<le> p1" using size by (simp add: p1_def)
  have at1: "buf r ! p1 = delim"
    by (simp add: shape p1_def nth_append)
  have dr2: "drop (p1 + 1) (buf r) = d2 @ term_char # pad"
    by (simp add: shape p1_def)
  have f2: "from_chars (buf r) (p1 + 1) buf_size v =
            (p2, errc_none, of_nat (digits_value d2))" for v
    unfolding p2_def using size
    by (intro from_chars_number [OF dr2 d2(1,2) not_digit_term _ d2(3)]) (simp add: p1_def)
  have lt2: "\<not> buf_size \<le> p2" using size by (simp add: p1_def p2_def)
  have at2: "buf r ! p2 = term_char"
    by (simp add: shape p1_def p2_def nth_append)
  have f1': "from_chars (buf r) (Suc (length acc)) buf_size v =
            (p1, errc_none, of_nat (digits_value d1))" for v
    using f1 [of v] by simp
  have f2': "from_chars (buf r) (Suc p1) buf_size v =
            (p2, errc_none, of_nat (digits_value d2))" for v
    using f2 [of v] by simp
  show ?thesis
    by (simp add: from_buffer_def Let_def c0 ne tk at0 f1' lt1 at1 f2' lt2 at2)
qed

lemma to_buffer_from_buffer_roundtrip:
  assumes len: "length (buf r) = buf_size"
    and fits: "length (request_text r) \<le> buf_size"
    and acc: "delim \<notin> set (accession r)"
  shows "\<exists>r' r''. to_buffer r = Inr (ok, r') \<and> from_buffer r' = Inr (ok, r'') \<and>
           accession r'' = accession r \<and> methylome_size r'' = methylome_size r \<and>
           n_intervals r'' = n_intervals r"
proof -
  define d1 where "d1 = dec_digits (unat (methylome_size r))"
  define d2 where "d2 = dec_digits (unat (n_intervals r))"
  define pad where "pad = replicate (buf_size - length (request_text r)) nul"
  define r' where "r' = r\<lparr>buf := request_text r @ pad\<rparr>"
  have enc: "to_buffer r = Inr (ok, r')"
    unfolding r'_def pad_def by (rule to_buffer_text [OF len fits])
  have shape: "buf r' = accession r @ delim # d1 @ delim # d2 @ term_char # pad"
    by (simp add: r'_def request_text_def d1_def d2_def)
  have size: "length (accession r) + length d1 + length d2 + 3 \<le> buf_size"
    using fits by (simp add: request_text_def d1_def d2_def)
  have v1: "digits_value d1 = unat (methylome_size r)"
    and v2: "digits_value d2 = unat (n_intervals r)"
    by (simp_all add: d1_def d2_def digits_value_dec_digits)
  have b1: "digits_value d1 < 2 ^ 32" and b2: "digits_value d2 < 2 ^ 32"
    using unsigned_less [of "methylome_size r"] unsigned_less [of "n_intervals r"]
    by (simp_all add: v1 v2)
  have "from_buffer r' =
         Inr (ok, r'\<lparr>accession := accession r, methylome_size := of_nat (digits_value d1),
                    n_intervals := of_nat (digits_value d2)\<rparr>)"
  proof (rule from_buffer_text [OF shape size _ _ _ b1 _ _ b2])
    show "delim \<notin> set (accession r)" by (rule acc)
    show "d1 \<noteq> []" "d2 \<noteq> []" by (simp_all add: d1_def d2_def dec_digits_nonempty)
    show "\<forall>x \<in> set d1. is_digit x" "\<forall>x \<in> set d2. is_digit x"
      by (simp_all add: d1_def d2_def dec_digits_all_digits)
  qed
  then have "from_buffer r' =
         Inr (ok, r'\<lparr>accession := accession r, methylome_size := methylome_size r,
                    n_intervals := n_intervals r\<rparr>)"
    by (simp add: v1 v2)
  with enc show ?thesis by auto
qed



lemma request_text1: "request_text request1 = ''a'' @ [delim] @ ''1'' @ [delim] @ ''2'' @ [term_char]"
  by code_simp

text \<open>
  C5, as stated, fails: for accession \<^verbatim>\<open>a\<close>, methylome size 1 and 2 intervals the bytes
  4 and 5 of the encoded header are the character \<^verbatim>\<open>2\<close> and the newline, where the binary
  layout has the accession length 1 as a big-endian u16.
\<close>

theorem to_buffer_layout_counterexample:
  "to_buffer request1 = Inr (ok, request1\<lparr>buf := encoded1\<rparr>) \<and>
   take 2 (drop 4 encoded1) = [CHR ''2'', term_char] \<and>
   be16 (length (accession request1)) = [CHR 0x00, CHR 0x01] \<and>
   \<not> spec_header_layout request1 encoded1"
proof -
  have len: "length (buf request1) = buf_size"
    by (simp add: request1_def zero_buf_def buf_size_def)
  have fits: "length (request_text request1) \<le> buf_size"
    by (simp add: request_text1 buf_size_def)
  have "request_text request1 @ replicate (buf_size - length (request_text request1)) nul = encoded1"
    by (simp add: request_text1 buf_size_def encoded1_def)
  with to_buffer_text [OF len fits]
  have a: "to_buffer request1 = Inr (ok, request1\<lparr>buf := encoded1\<rparr>)" by simp
  have b: "take 2 (drop 4 encoded1) = [CHR ''2'', term_char]"
    by (simp add: encoded1_def)
  have c: "be16 (length (accession request1)) = [CHR 0x00, CHR 0x01]"
    by code_simp
  have d: "\<not> spec_header_layout request1 encoded1"
    using b c by (simp add: spec_header_layout_def Let_def term_char_def)
  show ?thesis using a b c d by simp
qed

text \<open>
  C5, amended. When the text fits the buffer, the encoded request header is the text
  accession, tab, methylome size in decimal, tab, number of intervals in decimal,
  newline, followed by zero bytes up to the fixed size of 256 bytes.
\<close>

theorem to_buffer_is_text:
  assumes len: "length (buf r) = buf_size" and fits: "length (request_text r) \<le> buf_size"
  shows "\<exists>b. to_buffer r = Inr (ok, r\<lparr>buf := b\<rparr>) \<and> length b = buf_size \<and>
           take (length (request_text r)) b =
             accession r @ [delim] @ dec_digits (unat (methylome_size r)) @ [delim] @
             dec_digits (unat (n_intervals r)) @ [term_char] \<and>
           drop (length (request_text r)) b = replicate (buf_size - length (request_text r)) nul"
proof -
  define b where "b = request_text r @ replicate (buf_size - length (request_text r)) nul"
  have "to_buffer r = Inr (ok, r\<lparr>buf := b\<rparr>)"
    unfolding b_def by (rule to_buffer_text [OF len fits])
  moreover have "length b = buf_size" using fits by (simp add: b_def)
  moreover have "take (length (request_text r)) b = request_text r" by (simp add: b_def)
  moreover have "drop (length (request_text r)) b =
      replicate (buf_size - length (request_text r)) nul" by (simp add: b_def)
  ultimately show ?thesis by (auto simp: request_text_def)
qed

theorem to_buffer_is_text_witness:
  "length (buf request1) = buf_size \<and> length (request_text request1) \<le> buf_size \<and>
   to_buffer request1 = Inr (ok, request1\<lparr>buf := encoded1\<rparr>)"
proof -
  have len: "length (buf request1) = buf_size"
    by (simp add: request1_def zero_buf_def buf_size_def)
  have fits: "length (request_text request1) \<le> buf_size"
    by (simp add: request_text1 buf_size_def)
  from to_buffer_is_text [OF len fits] obtain b where
    b: "to_buffer request1 = Inr (ok, request1\<lparr>buf := b\<rparr>)" "length b = buf_size"
      "take (length (request_text request1)) b = request_text request1"
      "drop (length (request_text request1)) b =
         replicate (buf_size - length (request_text request1)) nul"
    by (auto simp: request_text_def)
  have "b = take (length (request_text request1)) b @ drop (length (request_text request1)) b"
    by simp
  also have "\<dots> = encoded1"
    unfolding b(3,4) by (simp add: request_text1 buf_size_def encoded1_def)
  finally show ?thesis using len fits b(1) by simp
qed


lemma from_chars_value_independent:
  "from_chars b first lst v = (ptr, ec, v') \<Longrightarrow> ec = errc_none \<Longrightarrow>
   from_chars b first lst w = (ptr, ec, v')"
  by (auto simp: from_chars_def Let_def split: if_splits)




section \<open>Errors on a connection\<close>

lemma respond_with_error_calls:
  "snd (snd (respond_with_error env c)) =
     (if fst (parse_response_header env (resp_buf c) (resp_hdr c)) then [ShutdownBoth]
      else [AsyncWrite (resp_buf c)])"
  by (simp add: respond_with_error_def Let_def split: prod.splits)

lemma respond_with_error_pending:
  "fst (snd (respond_with_error env c)) =
     (if fst (parse_response_header env (resp_buf c) (resp_hdr c)) then None
      else Some WriteError)"
  by (simp add: respond_with_error_def Let_def split: prod.splits)

lemma respond_with_error_written:
  "set (written (snd (snd (respond_with_error env c)))) \<subseteq> {resp_buf c}"
  by (simp add: respond_with_error_calls)

text \<open>
  C6. \<^verbatim>\<open>respond_with_error\<close> never composes the response header into the buffer it
  writes: whatever header \<open>h\<close> holds the status of the failure, the socket is shut down or
  the response buffer is written as it was. So after a request whose header fails to
  parse or is rejected, the only bytes the completion handler of \<^verbatim>\<open>read_request\<close> can
  send are those the response buffer held before the request arrived.
\<close>

theorem error_response_is_old_buffer:
  "snd (snd (respond_with_error env (c\<lparr>resp_hdr := h\<rparr>))) =
     (if fst (parse_response_header env (resp_buf c) h) then [ShutdownBoth]
      else [AsyncWrite (resp_buf c)]) \<and>
   set (written (snd (snd (on_read_request env c ec)))) \<subseteq> {resp_buf c}"
proof
  show "snd (snd (respond_with_error env (c\<lparr>resp_hdr := h\<rparr>))) =
     (if fst (parse_response_header env (resp_buf c) h) then [ShutdownBoth]
      else [AsyncWrite (resp_buf c)])"
    by (simp add: respond_with_error_calls)
  show "set (written (snd (snd (on_read_request env c ec)))) \<subseteq> {resp_buf c}"
  proof (cases ec)
    case IoError
    then show ?thesis by (simp add: on_read_request_def)
  next
    case (Transferred bytes)
    then show ?thesis
      by (auto simp: on_read_request_def Let_def respond_with_error_calls read_offsets_def
          split: prod.splits if_splits)
  qed
qed

text \<open>
  C7, as stated, fails: an I/O error on the read of the request makes no socket call at
  all, so the socket is not shut down; and after an I/O error on the read of the
  offsets a response is written.
\<close>

theorem io_error_counterexample:
  "on_read_request plain_collaborators fresh_connection IoError = (fresh_connection, None, []) \<and>
   on_read_offsets plain_collaborators fresh_connection IoError =
     (fresh_connection, Some WriteError, [AsyncWrite zero_buf])"
  by (simp add: on_read_request_def on_read_offsets_def respond_with_error_def
      plain_collaborators_def fresh_connection_def)

lemma run_after_error_write:
  "set (run env c WriteError ecs) \<subseteq> {ShutdownBoth}"
  by (cases ecs) (auto simp: complete_def on_write_error_def split: io_result.splits)

lemma run_io_error:
  "set (run env c p (IoError # ecs)) \<subseteq> {ShutdownBoth, AsyncWrite (resp_buf c)}"
proof (cases p)
  case ReadOffsets
  obtain c' q calls where r: "respond_with_error env c = (c', q, calls)"
    by (cases "respond_with_error env c")
  have calls: "set calls \<subseteq> {ShutdownBoth, AsyncWrite (resp_buf c)}"
    using respond_with_error_calls [of env c] r by (auto split: if_splits)
  have q: "q = None \<or> q = Some WriteError"
    using respond_with_error_pending [of env c] r by (auto split: if_splits)
  show ?thesis
    using ReadOffsets r calls q run_after_error_write [of env c' ecs]
    by (auto simp: complete_def on_read_offsets_def)
qed (simp_all add: complete_def on_read_request_def on_write_header_def on_write_counts_def
       on_write_error_def)

text \<open>
  C7, amended. After an I/O error the failed operation is not retried and nothing is read
  again. A failed read of the request, write of the counts or write of the error
  response makes no further socket call: the connection is destroyed and the socket
  closed with it. A failed write of the response header shuts the socket down. A failed
  read of the offsets calls \<^verbatim>\<open>respond_with_error\<close>: at most the response buffer is written
  and the socket shut down.
\<close>

theorem io_error_outcomes:
  "complete env c ReadRequest IoError = (c, None, []) \<and>
   complete env c ReadOffsets IoError = respond_with_error env c \<and>
   complete env c WriteHeader IoError = (c, None, [ShutdownBoth]) \<and>
   complete env c WriteCounts IoError = (c, None, []) \<and>
   complete env c WriteError IoError = (c, None, []) \<and>
   set (run env c p (IoError # ecs)) \<subseteq> {ShutdownBoth, AsyncWrite (resp_buf c)} \<and>
   filter is_read (run env c p (IoError # ecs)) = []"
proof -
  define calls where "calls = run env c p (IoError # ecs)"
  have sub: "set calls \<subseteq> {ShutdownBoth, AsyncWrite (resp_buf c)}"
    unfolding calls_def by (rule run_io_error)
  then have "\<forall>x \<in> set calls. \<not> is_read x" by auto
  then have none: "filter is_read calls = []"
    by (simp only: filter_empty_conv)
  have steps: "complete env c ReadRequest IoError = (c, None, []) \<and>
   complete env c ReadOffsets IoError = respond_with_error env c \<and>
   complete env c WriteHeader IoError = (c, None, [ShutdownBoth]) \<and>
   complete env c WriteCounts IoError = (c, None, []) \<and>
   complete env c WriteError IoError = (c, None, [])"
    by (simp add: complete_def on_read_request_def on_read_offsets_def on_write_header_def
        on_write_counts_def on_write_error_def)
  show ?thesis
    using steps sub none unfolding calls_def by blast
qed

section \<open>The two maps of the index set\<close>

lemma dom_emplace: "dom (emplace m k v) = insert k (dom m)"
  by (auto simp: emplace_def split: option.splits)

lemma load_entries_same_keys:
  "dom (assembly_to_cpg_index s) = dom (assembly_to_cpg_index_meta s) \<Longrightarrow>
   dom (assembly_to_cpg_index (load_entries fs entries s)) =
   dom (assembly_to_cpg_index_meta (load_entries fs entries s))"
proof (induction fs entries s rule: load_entries.induct)
  case (1 fs s)
  then show ?case by simp
next
  case (2 fs path name entries s)
  then show ?case
    by (auto simp: Let_def dom_emplace split: option.splits if_splits)
qed

lemma load_entries_failure:
  "some_read_fails fs entries \<Longrightarrow>
   assembly_to_cpg_index (load_entries fs entries s) = Map.empty \<and>
   assembly_to_cpg_index_meta (load_entries fs entries s) = Map.empty"
proof (induction fs entries s rule: load_entries.induct)
  case (1 fs s)
  then show ?case by (simp add: some_read_fails_def)
next
  case (2 fs path name entries s)
  show ?case
  proof (cases "index_filename_matches fs name \<and> assembly_match name \<noteq> None \<and>
        (read_index fs path = None \<or> read_meta fs (meta_filename fs path) = None)")
    case True
    then show ?thesis by (auto simp: Let_def split: option.splits)
  next
    case False
    with "2.prems" have rest: "some_read_fails fs entries"
      by (auto simp: some_read_fails_def)
    show ?thesis
      using False rest "2.IH"
      by (auto simp: Let_def split: option.splits)
  qed
qed

lemma discovered_Cons:
  "discovered fs ((path, name) # entries) =
     (if index_filename_matches fs name then
        (case assembly_match name of None \<Rightarrow> {} | Some a \<Rightarrow> {a}) else {}) \<union>
     discovered fs entries"
  by (auto simp: discovered_def split: option.splits)

lemma load_entries_success:
  "\<not> some_read_fails fs entries \<Longrightarrow>
   dom (assembly_to_cpg_index (load_entries fs entries s)) =
     dom (assembly_to_cpg_index s) \<union> discovered fs entries \<and>
   dom (assembly_to_cpg_index_meta (load_entries fs entries s)) =
     dom (assembly_to_cpg_index_meta s) \<union> discovered fs entries"
proof (induction fs entries s rule: load_entries.induct)
  case (1 fs s)
  then show ?case by (simp add: discovered_def)
next
  case (2 fs path name entries s)
  from "2.prems" have rest: "\<not> some_read_fails fs entries"
    by (auto simp: some_read_fails_def)
  have ok: "index_filename_matches fs name \<Longrightarrow> assembly_match name \<noteq> None \<Longrightarrow>
      read_index fs path \<noteq> None \<and> read_meta fs (meta_filename fs path) \<noteq> None"
    using "2.prems" by (auto simp: some_read_fails_def)
  show ?case
  proof (cases "index_filename_matches fs name")
    case False
    then show ?thesis using "2.IH"(3) rest by (simp add: discovered_Cons)
  next
    case True
    show ?thesis
    proof (cases "assembly_match name")
      case None
      then show ?thesis using True "2.IH"(1) rest by (simp add: discovered_Cons)
    next
      case (Some a)
      with ok True obtain index cim where
        rd: "read_index fs path = Some index" "read_meta fs (meta_filename fs path) = Some cim"
        by auto
      show ?thesis
        using True Some rd rest "2.IH"(2) [OF True Some rd(1) refl rd(2)]
        by (auto simp: discovered_Cons dom_emplace Let_def)
    qed
  qed
qed


text \<open>
  C10. When the directory can be listed, the constructor leaves both maps with the same
  assemblies: both empty if reading the index or the metadata of some index file of the
  listing fails, and otherwise both with exactly the assemblies discovered in the
  listing.
\<close>

theorem cpg_index_set_same_assemblies:
  assumes listing: "directory_entries fs directory = Some entries"
  shows "\<exists>s. new_cpg_index_set fs directory = Some s \<and>
     dom (assembly_to_cpg_index s) = dom (assembly_to_cpg_index_meta s) \<and>
     (if some_read_fails fs entries
      then assembly_to_cpg_index s = Map.empty \<and> assembly_to_cpg_index_meta s = Map.empty
      else dom (assembly_to_cpg_index s) = discovered fs entries \<and>
           dom (assembly_to_cpg_index_meta s) = discovered fs entries)"
proof -
  define s0 :: "('a, 'b) cpg_index_set" where
    "s0 = \<lparr> cpg_index_directory = directory, assembly_to_cpg_index = Map.empty,
            assembly_to_cpg_index_meta = Map.empty \<rparr>"
  define s where "s = load_entries fs entries s0"
  have new: "new_cpg_index_set fs directory = Some s"
    by (simp add: new_cpg_index_set_def listing s_def s0_def)
  have "dom (assembly_to_cpg_index s0) = dom (assembly_to_cpg_index_meta s0)"
    by (simp add: s0_def)
  then have same: "dom (assembly_to_cpg_index s) = dom (assembly_to_cpg_index_meta s)"
    unfolding s_def by (rule load_entries_same_keys)
  have fail: "assembly_to_cpg_index s = Map.empty \<and> assembly_to_cpg_index_meta s = Map.empty"
    if "some_read_fails fs entries"
    unfolding s_def using that by (rule load_entries_failure)
  have good: "dom (assembly_to_cpg_index s) = discovered fs entries \<and>
           dom (assembly_to_cpg_index_meta s) = discovered fs entries"
    if "\<not> some_read_fails fs entries"
    using load_entries_success [OF that, of s0] by (simp add: s_def s0_def)
  show ?thesis
    using new same fail good by (intro exI [of _ s]) simp
qed

theorem cpg_index_set_same_assemblies_witness:
  "dom (assembly_to_cpg_index (the (new_cpg_index_set two_indexes ''idx''))) =
     {''hg38'', ''mm39''} \<and>
   dom (assembly_to_cpg_index_meta (the (new_cpg_index_set two_indexes ''idx''))) =
     {''hg38'', ''mm39''}"
proof -
  define entries where
    "entries = [(''idx/hg38.cpg_idx'', ''hg38.cpg_idx''), (''idx/README'', ''README''),
                (''idx/mm39.cpg_idx'', ''mm39.cpg_idx'')]"
  have listing: "directory_entries two_indexes ''idx'' = Some entries"
    by (simp add: two_indexes_def entries_def)
  have a1: "assembly_match ''hg38.cpg_idx'' = Some ''hg38''" by code_simp
  have a2: "assembly_match ''mm39.cpg_idx'' = Some ''mm39''" by code_simp
  have m1: "index_filename_matches two_indexes ''hg38.cpg_idx''"
    and m2: "\<not> index_filename_matches two_indexes ''README''"
    and m3: "index_filename_matches two_indexes ''mm39.cpg_idx''"
    by (simp_all add: two_indexes_def)
  have rd: "read_index two_indexes p \<noteq> None"
    "read_meta two_indexes (meta_filename two_indexes p) \<noteq> None" for p
    by (simp_all add: two_indexes_def)
  have nofail: "\<not> some_read_fails two_indexes entries"
    unfolding some_read_fails_def using rd by blast
  have nil: "discovered two_indexes [] = {}"
    by (simp add: discovered_def)
  have disc: "discovered two_indexes entries = {''hg38'', ''mm39''}"
    unfolding entries_def discovered_Cons nil
    by (simp only: m1 m2 m3 a1 a2 if_True if_False option.case) blast
  from cpg_index_set_same_assemblies [OF listing]
  obtain s where s: "new_cpg_index_set two_indexes ''idx'' = Some s"
    and d: "dom (assembly_to_cpg_index s) = discovered two_indexes entries"
      "dom (assembly_to_cpg_index_meta s) = discovered two_indexes entries"
    using nofail by (metis (full_types))
  show ?thesis
    unfolding s option.sel d disc by (rule conjI) (rule refl)+
qed

end
